theory Spec2Isabelle
  imports Complex_Main "HOL-Library.Word"
begin

unbundle bit_operations_syntax

section \<open>JavaScript primitives used by the decoder\<close>

text \<open>
  A packet is a hexadecimal string. \<open>String.prototype.substr(start, length)\<close> with
  non-negative arguments never fails: past the end it yields the characters that
  are there, possibly none.
\<close>

definition substr :: "string \<Rightarrow> nat \<Rightarrow> nat \<Rightarrow> string" where
  "substr s start len = take len (drop start s)"

definition substrFrom :: "string \<Rightarrow> nat \<Rightarrow> string" where
  "substrFrom s start = drop start s"

text \<open>
  \<open>parseInt(s, 16)\<close>: leading white space is skipped, then an optional sign, then an
  optional \<open>0x\<close> prefix; the value is that of the longest run of hexadecimal digits
  that follows, and NaN (here \<open>None\<close>) when there is no such digit.
\<close>

definition isWhiteSpace :: "char \<Rightarrow> bool" where
  "isWhiteSpace c = ((of_char c :: nat) \<in> {9, 10, 11, 12, 13, 32, 160})"

definition digitValue :: "char \<Rightarrow> nat option" where
  "digitValue c =
     (let n = (of_char c :: nat) in
      if 48 \<le> n \<and> n \<le> 57 then Some (n - 48)
      else if 97 \<le> n \<and> n \<le> 102 then Some (n - 87)
      else if 65 \<le> n \<and> n \<le> 70 then Some (n - 55)
      else None)"

fun hexPrefixValue :: "nat \<Rightarrow> string \<Rightarrow> nat" where
  "hexPrefixValue acc [] = acc"
| "hexPrefixValue acc (c # cs) =
     (case digitValue c of
        None \<Rightarrow> acc
      | Some d \<Rightarrow> hexPrefixValue (16 * acc + d) cs)"

definition stripSign :: "string \<Rightarrow> bool \<times> string" where
  "stripSign t =
     (case t of
        [] \<Rightarrow> (False, t)
      | c # r \<Rightarrow>
          if c = CHR ''-'' then (True, r)
          else if c = CHR ''+'' then (False, r)
          else (False, t))"

definition stripPrefix :: "string \<Rightarrow> string" where
  "stripPrefix u = (if take 2 u = ''0x'' \<or> take 2 u = ''0X'' then drop 2 u else u)"

definition parseInt16 :: "string \<Rightarrow> int option" where
  "parseInt16 s =
     (let (neg, u) = stripSign (dropWhile isWhiteSpace s);
          v = stripPrefix u
      in case v of
           [] \<Rightarrow> None
         | c # _ \<Rightarrow>
             (case digitValue c of
                None \<Rightarrow> None
              | Some _ \<Rightarrow>
                  Some ((if neg then - 1 else 1) * int (hexPrefixValue 0 v))))"

text \<open>
  The bitwise operators \<open>&\<close>, \<open>>>\<close> and \<open><<\<close> first convert their operand to a
  signed 32-bit integer; NaN converts to 0.
\<close>

definition toInt32 :: "int option \<Rightarrow> int" where
  "toInt32 x =
     (case x of
        None \<Rightarrow> 0
      | Some n \<Rightarrow> (n + 2 ^ 31) mod 2 ^ 32 - 2 ^ 31)"

section \<open>Bit-field conversions\<close>

text \<open>
  \<open>toBatteryPercentage\<close>, \<open>toAcceleration\<close> and \<open>toRssi\<close> are the same in
  \<open>lib/diractdigester.js\<close> and in the second decoder file, which only adds logging.
  \<open>Math.round\<close> rounds halves upwards. The quotients are exact in binary floating
  point or far enough from a half, so rationals stand for the numbers.
\<close>

definition toBatteryPercentage :: "string \<Rightarrow> int" where
  "toBatteryPercentage bits =
     (let data = toInt32 (parseInt16 bits) AND 0x3f
      in \<lfloor>(100 * of_int data / 63 :: rat) + 1 / 2\<rfloor>)"

definition toAcceleration :: "string \<Rightarrow> bool \<Rightarrow> rat option" where
  "toAcceleration byte isUpper =
     (let data = parseInt16 byte;
          data = (if isUpper then drop_bit 2 (toInt32 data) else toInt32 data AND 0x3f)
      in if data = 32 then None
         else if data > 31 then Some (of_int (data - 64) / 16)
         else Some (of_int data / 16))"

definition toRssi :: "string \<Rightarrow> int" where
  "toRssi bits = (toInt32 (parseInt16 bits) AND 0x3f) - 92"

section \<open>Data\<close>

text \<open>
  An entry of a digest page is \<open>{instanceId, count}\<close>; the count is what
  \<open>parseInt\<close> returned, so it can be NaN. An entry of the proximity list is
  \<open>{instanceId, rssi}\<close>.
\<close>

datatype entry = Entry (entryInstanceId: string) (entryCount: "int option")

datatype nearest = Nearest (nearestInstanceId: string) (rssi: int)

text \<open>
  The proximity report \<open>diract\<close>. The field \<open>timestamp\<close> exists only in the second
  decoder file; in \<open>lib/diractdigester.js\<close> it is absent.
\<close>

record diract =
  cyclicCount :: int
  proximityInstanceId :: string
  acceleration :: "rat option list"
  batteryPercentage :: int
  nearest :: "nearest list"
  proximityTimestamp :: "int option"

text \<open>
  The property \<open>numberOfInteractions\<close> of a digest is \<open>null\<close>, a number, or has been
  removed by \<open>delete\<close>.
\<close>

datatype expected = Null | Deleted | Number nat

text \<open>
  The digest object. \<open>interactions\<close> is a JavaScript array: an index can be a hole
  (\<open>None\<close>). \<open>isHandled\<close> is undefined, hence falsy, until it is set to true.
  \<open>timestamp\<close> is absent in \<open>lib/diractdigester.js\<close>.
\<close>

record digest =
  instanceId :: string
  digestTimestamp :: int
  numberOfInteractions :: expected
  interactions :: "entry option list"
  timestamp :: "int option"
  isHandled :: bool

text \<open>
  Digest objects live in a store and are named by references: the map
  \<open>digests\<close> of the digester, the local variable \<open>digest\<close> and the argument of the
  handler all hold a reference to the same object. \<open>nextRef\<close> is the next free
  reference. A handler is an external function; the digester record says whether one
  is registered, and \<open>calls\<close> lists the invocations in order, each with the reference
  passed and the content of the object at the moment of the call. Handlers are taken
  to return normally and to leave the object they receive as it is. Logging is not
  modelled.
\<close>

type_synonym ref = nat

datatype call = ProximityCall diract | DigestCall ref digest

record digester =
  handleDirActProximity :: bool
  handleDirActDigest :: bool
  digests :: "string \<rightharpoonup> ref"
  store :: "ref \<rightharpoonup> digest"
  nextRef :: ref
  calls :: "call list"

definition newDigester :: "bool \<Rightarrow> bool \<Rightarrow> digester" where
  "newDigester proximityHandler digestHandler =
     \<lparr>handleDirActProximity = proximityHandler, handleDirActDigest = digestHandler,
      digests = Map.empty, store = Map.empty, nextRef = 0, calls = []\<rparr>"

definition allocDigest :: "digester \<Rightarrow> digest \<Rightarrow> digester \<times> ref" where
  "allocDigest inst d =
     (inst\<lparr>store := (store inst)(nextRef inst \<mapsto> d), nextRef := Suc (nextRef inst)\<rparr>,
      nextRef inst)"

text \<open>
  The record of a raddec: \<open>packets\<close> is \<open>None\<close> when the property is missing, and
  so is \<open>raddecTimestamp\<close>.
\<close>

record raddec =
  packets :: "string list option"
  raddecTimestamp :: "int option"

text \<open>
  The arguments that \<open>processDigestPacket\<close> hands to \<open>updateDigest\<close>. The parameters
  \<open>instanceId\<close> and \<open>digestTimestamp\<close> of the source functions are written \<open>iid\<close> and
  \<open>dts\<close> below, the record fields having taken the names.
\<close>

record digestPage =
  pgInstanceId :: string
  pgDigestTimestamp :: int
  pgIsLastPage :: bool
  pgPageNumber :: nat
  pgEntries :: "entry list"

definition DIRACT_PROXIMITY_SIGNATURE :: string where
  "DIRACT_PROXIMITY_SIGNATURE = ''ff830501''"

definition DIRACT_DIGEST_SIGNATURE :: string where
  "DIRACT_DIGEST_SIGNATURE = ''ff830511''"

definition DIRACT_PACKET_SIGNATURE_OFFSET :: nat where
  "DIRACT_PACKET_SIGNATURE_OFFSET = 24"

definition DIRACT_DEVICES_PER_PAGE :: nat where
  "DIRACT_DEVICES_PER_PAGE = 3"

section \<open>Arrays with holes\<close>

text \<open>
  \<open>a[i] = v\<close> on a JavaScript array: an index past the end extends the array, and
  the indices in between become holes.
\<close>

fun setIndex :: "'a option list \<Rightarrow> nat \<Rightarrow> 'a \<Rightarrow> 'a option list" where
  "setIndex [] 0 v = [Some v]"
| "setIndex [] (Suc i) v = None # setIndex [] i v"
| "setIndex (x # xs) 0 v = Some v # xs"
| "setIndex (x # xs) (Suc i) v = x # setIndex xs i v"

text \<open>
  \<open>page.forEach(function(entry, index) { interactions[offset + index] = entry; })\<close>
\<close>

fun writePage :: "entry option list \<Rightarrow> nat \<Rightarrow> entry list \<Rightarrow> entry option list" where
  "writePage arr offset [] = arr"
| "writePage arr offset (e # es) = writePage (setIndex arr offset e) (Suc offset) es"

text \<open>\<open>forEach\<close> skips the holes: the loop of \<open>isDigestComplete\<close> counts the entries present.\<close>

fun countEntries :: "'a option list \<Rightarrow> nat" where
  "countEntries [] = 0"
| "countEntries (None # xs) = countEntries xs"
| "countEntries (Some v # xs) = Suc (countEntries xs)"

definition populated :: "'a option list \<Rightarrow> nat \<Rightarrow> bool" where
  "populated arr i = (i < length arr \<and> arr ! i \<noteq> None)"

section \<open>The reassembler shared by both files\<close>

definition isDigestComplete :: "digest \<Rightarrow> bool" where
  "isDigestComplete digest =
     (let isLastPagePending = (numberOfInteractions digest = Null)
      in if isLastPagePending then False
         else Number (countEntries (interactions digest)) = numberOfInteractions digest)"

text \<open>
  The last statement of \<open>updateDigest\<close>, the same in both files: when the digest is
  complete, delete \<open>numberOfInteractions\<close>, call the handler with the object, then set
  \<open>isHandled\<close>. \<open>updateDigest\<close> is only reached behind the test of \<open>processPacket\<close>
  that a digest handler is registered. The local variable \<open>digest\<close> is the reference
  \<open>r\<close>; it always names an object of the store, so the first branch is never taken.
\<close>

definition updateDigest_emit :: "digester \<Rightarrow> ref \<Rightarrow> digester" where
  "updateDigest_emit inst r =
     (case store inst r of
        None \<Rightarrow> inst
      | Some digest \<Rightarrow>
          if isDigestComplete digest then
            (let deleted = digest\<lparr>numberOfInteractions := Deleted\<rparr>;
                 inst1 = inst\<lparr>store := (store inst)(r \<mapsto> deleted)\<rparr>;
                 inst2 = inst1\<lparr>calls := calls inst1 @ [DigestCall r deleted]\<rparr>
             in inst2\<lparr>store := (store inst2)(r \<mapsto> deleted\<lparr>isHandled := True\<rparr>)\<rparr>)
          else inst)"

section \<open>The decoder of the second file (with timestamps)\<close>

definition addDigestPage :: "digest \<Rightarrow> bool \<Rightarrow> nat \<Rightarrow> entry list \<Rightarrow> digest" where
  "addDigestPage digest isLastPage pageNumber page =
     (let offset = pageNumber * DIRACT_DEVICES_PER_PAGE;
          digest = (if isLastPage
                    then digest\<lparr>numberOfInteractions := Number (offset + length page)\<rparr>
                    else digest)
      in digest\<lparr>interactions := writePage (interactions digest) offset page\<rparr>)"

definition createDigest ::
  "string \<Rightarrow> int \<Rightarrow> bool \<Rightarrow> nat \<Rightarrow> entry list \<Rightarrow> int \<Rightarrow> digest" where
  "createDigest iid dts isLastPage pageNumber page ts =
     (let digest = \<lparr>instanceId = iid, digestTimestamp = dts, numberOfInteractions = Null,
                     interactions = [], timestamp = Some ts, isHandled = False\<rparr>
      in addDigestPage digest isLastPage pageNumber page)"

text \<open>
  The first statement of \<open>updateDigest\<close>: find or create the digest of the device, or
  add the page to it. \<open>None\<close> is the early \<open>return\<close> for a digest already handled.
  A reference of the map always names an object of the store (lemmas
  \<open>updateDigest_step\<close> and \<open>feedPages_wellFormed\<close> below), so the branch for a dangling
  reference is never taken.
\<close>

definition updateDigest_locate ::
  "digester \<Rightarrow> string \<Rightarrow> int \<Rightarrow> bool \<Rightarrow> nat \<Rightarrow> entry list \<Rightarrow> int \<Rightarrow> (digester \<times> ref) option" where
  "updateDigest_locate inst iid dts isLastPage pageNumber page ts =
     (case digests inst iid of
        None \<Rightarrow>
          (let (inst1, r) = allocDigest inst (createDigest iid dts isLastPage pageNumber page ts)
           in Some (inst1\<lparr>digests := (digests inst1)(iid \<mapsto> r)\<rparr>, r))
      | Some r \<Rightarrow>
          (case store inst r of
             None \<Rightarrow> None
           | Some digest \<Rightarrow>
               if digestTimestamp digest \<noteq> dts then
                 (let (inst1, r1) =
                        allocDigest inst (createDigest iid dts isLastPage pageNumber page ts)
                  in Some (inst1\<lparr>digests := (digests inst1)(iid \<mapsto> r1)\<rparr>, r1))
               else if isHandled digest then None
               else Some (inst\<lparr>store := (store inst)
                                   (r \<mapsto> addDigestPage digest isLastPage pageNumber page)\<rparr>, r)))"

definition updateDigest ::
  "digester \<Rightarrow> string \<Rightarrow> int \<Rightarrow> bool \<Rightarrow> nat \<Rightarrow> entry list \<Rightarrow> int \<Rightarrow> digester" where
  "updateDigest inst iid dts isLastPage pageNumber page ts =
     (case updateDigest_locate inst iid dts isLastPage pageNumber page ts of
        None \<Rightarrow> inst
      | Some (inst1, r) \<Rightarrow> updateDigest_emit inst1 r)"

text \<open>The loop over the entries of a page, with the count rescaled above 128.\<close>

function digestPageLoop :: "string \<Rightarrow> int \<Rightarrow> nat \<Rightarrow> entry list" where
  "digestPageLoop data frameLength pageIndex =
     (if int pageIndex < frameLength + 2 then
        (let instanceId' = substr data (pageIndex * 2) 8;
             count = parseInt16 (substr data (pageIndex * 2 + 8) 2);
             count = (case count of
                        None \<Rightarrow> None
                      | Some c \<Rightarrow>
                          if c > 128 then Some (push_bit 8 (toInt32 (Some c) AND 0x7f))
                          else Some c)
         in Entry instanceId' count # digestPageLoop data frameLength (pageIndex + 5))
      else [])"
  by pat_completeness auto
termination
  by (relation "measure (\<lambda>(data, frameLength, pageIndex). nat (frameLength + 2 - int pageIndex))")
    auto

declare digestPageLoop.simps [simp del]

definition decodeDigestPage :: "string \<Rightarrow> digestPage" where
  "decodeDigestPage packet =
     (let data = substrFrom packet 30;
          frameLength = toInt32 (parseInt16 (substr data 2 2)) AND 0x1f;
          pageNumber = drop_bit 1 (toInt32 (parseInt16 (substr data 2 1)));
          instanceId' = substr data 4 8;
          isLastPage = (toInt32 (parseInt16 (substr data 12 1)) AND 0x8 = 0x8);
          digestTimestamp' = toInt32 (parseInt16 (substr data 12 6)) AND 0x7fffff;
          page = digestPageLoop data frameLength 9
      in \<lparr>pgInstanceId = instanceId', pgDigestTimestamp = digestTimestamp',
          pgIsLastPage = isLastPage, pgPageNumber = nat pageNumber, pgEntries = page\<rparr>)"

definition processDigestPacket :: "digester \<Rightarrow> string \<Rightarrow> int \<Rightarrow> digester" where
  "processDigestPacket inst packet ts =
     (let p = decodeDigestPage packet
      in updateDigest inst (pgInstanceId p) (pgDigestTimestamp p) (pgIsLastPage p)
           (pgPageNumber p) (pgEntries p) ts)"

function nearestLoop :: "string \<Rightarrow> int \<Rightarrow> nat \<Rightarrow> nearest list" where
  "nearestLoop data frameLength nearestIndex =
     (if int nearestIndex < frameLength + 2 then
        (let instanceId' = substr data (nearestIndex * 2) 8;
             rssi' = toRssi (substr data (nearestIndex * 2 + 8) 2)
         in Nearest instanceId' rssi' # nearestLoop data frameLength (nearestIndex + 5))
      else [])"
  by pat_completeness auto
termination
  by (relation "measure (\<lambda>(data, frameLength, nearestIndex). nat (frameLength + 2 - int nearestIndex))")
    auto

declare nearestLoop.simps [simp del]

text \<open>
  The report built by \<open>processProximityPacket\<close>; both files build it the same way, the
  second one adds the timestamp.
\<close>

definition decodeProximity :: "string \<Rightarrow> int option \<Rightarrow> diract" where
  "decodeProximity packet ts =
     (let data = substrFrom packet 30;
          frameLength = toInt32 (parseInt16 (substr data 2 2)) AND 0x1f
      in \<lparr>cyclicCount = drop_bit 1 (toInt32 (parseInt16 (substr data 2 1))),
          proximityInstanceId = substr data 4 8,
          acceleration = [toAcceleration (substr data 12 2) True,
                          toAcceleration (substr data 13 2) False,
                          toAcceleration (substr data 15 2) True],
          batteryPercentage = toBatteryPercentage (substr data 16 2),
          nearest = nearestLoop data frameLength 9,
          proximityTimestamp = ts\<rparr>)"

definition processProximityPacket :: "digester \<Rightarrow> string \<Rightarrow> int \<Rightarrow> digester" where
  "processProximityPacket inst packet ts =
     inst\<lparr>calls := calls inst @ [ProximityCall (decodeProximity packet (Some ts))]\<rparr>"

definition processPacket :: "digester \<Rightarrow> string \<Rightarrow> int \<Rightarrow> digester" where
  "processPacket inst packet ts =
     (let signature = substr packet DIRACT_PACKET_SIGNATURE_OFFSET
                        (length DIRACT_PROXIMITY_SIGNATURE);
          isDirActProximity = (signature = DIRACT_PROXIMITY_SIGNATURE);
          isDirActDigest = (signature = DIRACT_DIGEST_SIGNATURE)
      in if isDirActProximity \<and> handleDirActProximity inst
         then processProximityPacket inst packet ts
         else if isDirActDigest \<and> handleDirActDigest inst
         then processDigestPacket inst packet ts
         else inst)"

text \<open>\<open>now\<close> is the value of \<open>Date.now()\<close>, used when the raddec has no timestamp (or 0).\<close>

definition handleRaddec :: "digester \<Rightarrow> raddec \<Rightarrow> int \<Rightarrow> digester" where
  "handleRaddec inst raddec now =
     (case packets raddec of
        None \<Rightarrow> inst
      | Some ps \<Rightarrow>
          (let ts = (case raddecTimestamp raddec of
                       None \<Rightarrow> now
                     | Some t \<Rightarrow> if t = 0 then now else t)
           in foldl (\<lambda>self packet. processPacket self packet ts) inst ps))"

section \<open>The decoder of lib/diractdigester.js\<close>

definition addDigestPage_lib ::
  "entry option list \<Rightarrow> nat \<Rightarrow> entry list \<Rightarrow> entry option list" where
  "addDigestPage_lib interactions' pageNumber page =
     (let offset = pageNumber * DIRACT_DEVICES_PER_PAGE
      in writePage interactions' offset page)"

definition createDigest_lib ::
  "string \<Rightarrow> int \<Rightarrow> bool \<Rightarrow> nat \<Rightarrow> entry list \<Rightarrow> digest" where
  "createDigest_lib iid dts isLastPage pageNumber page =
     (let interactions' = addDigestPage_lib [] pageNumber page;
          numberOfInteractions' = (if isLastPage then Number (pageNumber + length page) else Null)
      in \<lparr>instanceId = iid, digestTimestamp = dts, numberOfInteractions = numberOfInteractions',
          interactions = interactions', timestamp = None, isHandled = False\<rparr>)"

definition updateDigest_locate_lib ::
  "digester \<Rightarrow> string \<Rightarrow> int \<Rightarrow> bool \<Rightarrow> nat \<Rightarrow> entry list \<Rightarrow> (digester \<times> ref) option" where
  "updateDigest_locate_lib inst iid dts isLastPage pageNumber page =
     (case digests inst iid of
        None \<Rightarrow>
          (let (inst1, r) = allocDigest inst (createDigest_lib iid dts isLastPage pageNumber page)
           in Some (inst1\<lparr>digests := (digests inst1)(iid \<mapsto> r)\<rparr>, r))
      | Some r \<Rightarrow>
          (case store inst r of
             None \<Rightarrow> None
           | Some digest \<Rightarrow>
               if digestTimestamp digest \<noteq> dts then
                 (let (inst1, r1) =
                        allocDigest inst (createDigest_lib iid dts isLastPage pageNumber page)
                  in Some (inst1\<lparr>digests := (digests inst1)(iid \<mapsto> r1)\<rparr>, r1))
               else if isHandled digest then None
               else Some (inst\<lparr>store := (store inst)
                            (r \<mapsto> digest\<lparr>interactions :=
                                  addDigestPage_lib (interactions digest) pageNumber page\<rparr>)\<rparr>, r)))"

definition updateDigest_lib ::
  "digester \<Rightarrow> string \<Rightarrow> int \<Rightarrow> bool \<Rightarrow> nat \<Rightarrow> entry list \<Rightarrow> digester" where
  "updateDigest_lib inst iid dts isLastPage pageNumber page =
     (case updateDigest_locate_lib inst iid dts isLastPage pageNumber page of
        None \<Rightarrow> inst
      | Some (inst1, r) \<Rightarrow> updateDigest_emit inst1 r)"

function digestPageLoop_lib :: "string \<Rightarrow> int \<Rightarrow> nat \<Rightarrow> entry list" where
  "digestPageLoop_lib data frameLength pageIndex =
     (if int pageIndex < frameLength + 2 then
        (let instanceId' = substr data (pageIndex * 2) 8;
             count = parseInt16 (substr data (pageIndex * 2 + 8) 2)
         in Entry instanceId' count # digestPageLoop_lib data frameLength (pageIndex + 5))
      else [])"
  by pat_completeness auto
termination
  by (relation "measure (\<lambda>(data, frameLength, pageIndex). nat (frameLength + 2 - int pageIndex))")
    auto

declare digestPageLoop_lib.simps [simp del]

definition decodeDigestPage_lib :: "string \<Rightarrow> digestPage" where
  "decodeDigestPage_lib packet =
     (let data = substrFrom packet 30;
          frameLength = toInt32 (parseInt16 (substr data 2 2)) AND 0x1f;
          pageNumber = drop_bit 1 (toInt32 (parseInt16 (substr data 2 1)));
          instanceId' = substr data 4 8;
          isLastPage = (toInt32 (parseInt16 (substr data 12 1)) AND 0x8 = 0x8);
          digestTimestamp' = toInt32 (parseInt16 (substr data 12 6)) AND 0x7fffff;
          page = digestPageLoop_lib data frameLength 9
      in \<lparr>pgInstanceId = instanceId', pgDigestTimestamp = digestTimestamp',
          pgIsLastPage = isLastPage, pgPageNumber = nat pageNumber, pgEntries = page\<rparr>)"

definition processDigestPacket_lib :: "digester \<Rightarrow> string \<Rightarrow> digester" where
  "processDigestPacket_lib inst packet =
     (let p = decodeDigestPage_lib packet
      in updateDigest_lib inst (pgInstanceId p) (pgDigestTimestamp p) (pgIsLastPage p)
           (pgPageNumber p) (pgEntries p))"

definition processProximityPacket_lib :: "digester \<Rightarrow> string \<Rightarrow> digester" where
  "processProximityPacket_lib inst packet =
     inst\<lparr>calls := calls inst @ [ProximityCall (decodeProximity packet None)]\<rparr>"

definition processPacket_lib :: "digester \<Rightarrow> string \<Rightarrow> digester" where
  "processPacket_lib inst packet =
     (let signature = substr packet DIRACT_PACKET_SIGNATURE_OFFSET
                        (length DIRACT_PROXIMITY_SIGNATURE);
          isDirActProximity = (signature = DIRACT_PROXIMITY_SIGNATURE);
          isDirActDigest = (signature = DIRACT_DIGEST_SIGNATURE)
      in if isDirActProximity \<and> handleDirActProximity inst
         then processProximityPacket_lib inst packet
         else if isDirActDigest \<and> handleDirActDigest inst
         then processDigestPacket_lib inst packet
         else inst)"

definition handleRaddec_lib :: "digester \<Rightarrow> raddec \<Rightarrow> digester" where
  "handleRaddec_lib inst raddec =
     (case packets raddec of
        None \<Rightarrow> inst
      | Some ps \<Rightarrow> foldl processPacket_lib inst ps)"

section \<open>Feeding a sequence of pages\<close>

text \<open>
  A sequence of digest pages, each with the capture timestamp of its raddec, handed
  to \<open>updateDigest\<close> one after the other.
\<close>

fun feedPages :: "digester \<Rightarrow> (digestPage \<times> int) list \<Rightarrow> digester" where
  "feedPages inst [] = inst"
| "feedPages inst ((p, ts) # ps) =
     feedPages (updateDigest inst (pgInstanceId p) (pgDigestTimestamp p) (pgIsLastPage p)
                  (pgPageNumber p) (pgEntries p) ts) ps"

fun feedPages_lib :: "digester \<Rightarrow> digestPage list \<Rightarrow> digester" where
  "feedPages_lib inst [] = inst"
| "feedPages_lib inst (p # ps) =
     feedPages_lib (updateDigest_lib inst (pgInstanceId p) (pgDigestTimestamp p)
                      (pgIsLastPage p) (pgPageNumber p) (pgEntries p)) ps"

text \<open>The digest-ready invocations, in order: the objects passed to the handler.\<close>

fun digestCalls :: "call list \<Rightarrow> (ref \<times> digest) list" where
  "digestCalls [] = []"
| "digestCalls (ProximityCall d # cs) = digestCalls cs"
| "digestCalls (DigestCall r d # cs) = (r, d) # digestCalls cs"

definition emittedKeys :: "digester \<Rightarrow> (string \<times> int) list" where
  "emittedKeys inst = map (\<lambda>(r, d). (instanceId d, digestTimestamp d)) (digestCalls (calls inst))"

section \<open>Notions used to state the properties\<close>

text \<open>The signature that \<open>processPacket\<close> reads from a packet.\<close>

definition packetSignature :: "string \<Rightarrow> string" where
  "packetSignature packet =
     substr packet DIRACT_PACKET_SIGNATURE_OFFSET (length DIRACT_PROXIMITY_SIGNATURE)"

text \<open>
  A digester after one complete single-page digest of device \<open>01234567\<close> has been
  handled.
\<close>

definition handledSample :: digester where
  "handledSample =
     \<lparr>handleDirActProximity = False, handleDirActDigest = True,
      digests = [''01234567'' \<mapsto> 0],
      store = [0 \<mapsto> \<lparr>instanceId = ''01234567'', digestTimestamp = 3600,
                       numberOfInteractions = Deleted,
                       interactions = [Some (Entry ''0aaaaaaa'' (Some 7))],
                       timestamp = Some 1589934703996, isHandled = True\<rparr>],
      nextRef = 1,
      calls = [DigestCall 0 \<lparr>instanceId = ''01234567'', digestTimestamp = 3600,
                       numberOfInteractions = Deleted,
                       interactions = [Some (Entry ''0aaaaaaa'' (Some 7))],
                       timestamp = Some 1589934703996, isHandled = False\<rparr>]\<rparr>"

text \<open>
  The byte from which \<open>frameLength\<close> takes its low five bits: the two characters
  at offset 2 of \<open>data\<close>.
\<close>

definition firstBodyByte :: "string \<Rightarrow> int" where
  "firstBodyByte packet = toInt32 (parseInt16 (substr (substrFrom packet 30) 2 2))"

text \<open>A proximity packet with first body byte \<open>0a\<close> and one entry in its list.\<close>

definition proximitySample :: string where
  "proximitySample = ''000000000000000000000000ff8305010a0123456700003f0aaaaaaa28''"

text \<open>
  A digest packet: page 0, last page, first body byte \<open>08\<close>, digestTimestamp 1, one entry
  with count byte \<open>ff\<close>.
\<close>

definition digestSample :: string where
  "digestSample = ''000000000000000000000000ff83051108012345678000010aaaaaaaff''"

text \<open>What the second file does to the count of an entry and \<open>lib/diractdigester.js\<close> does not.\<close>

definition rescaleCount :: "entry \<Rightarrow> entry" where
  "rescaleCount e =
     Entry (entryInstanceId e)
       (case entryCount e of
          None \<Rightarrow> None
        | Some c \<Rightarrow>
            if c > 128 then Some (push_bit 8 (toInt32 (Some c) AND 0x7f)) else Some c)"

text \<open>The two pages of a five-entry digest: page 0 with three entries, page 1, last, with two.\<close>

definition firstPage :: "string \<Rightarrow> int \<Rightarrow> entry \<Rightarrow> entry \<Rightarrow> entry \<Rightarrow> digestPage" where
  "firstPage iid dts e0 e1 e2 =
     \<lparr>pgInstanceId = iid, pgDigestTimestamp = dts, pgIsLastPage = False, pgPageNumber = 0,
      pgEntries = [e0, e1, e2]\<rparr>"

definition secondPage :: "string \<Rightarrow> int \<Rightarrow> entry \<Rightarrow> entry \<Rightarrow> digestPage" where
  "secondPage iid dts e3 e4 =
     \<lparr>pgInstanceId = iid, pgDigestTimestamp = dts, pgIsLastPage = True, pgPageNumber = 1,
      pgEntries = [e3, e4]\<rparr>"

text \<open>A digest packet like \<open>digestSample\<close> with count byte \<open>27\<close>.\<close>

definition digestSampleSmall :: string where
  "digestSampleSmall = ''000000000000000000000000ff83051108012345678000010aaaaaaa27''"

text \<open>
  The object literal of \<open>createDigest\<close> in the second file, before the first page is
  added to it.
\<close>

definition blankDigest :: "string \<Rightarrow> int \<Rightarrow> int \<Rightarrow> digest" where
  "blankDigest iid dts ts =
     \<lparr>instanceId = iid, digestTimestamp = dts, numberOfInteractions = Null,
      interactions = [], timestamp = Some ts, isHandled = False\<rparr>"

text \<open>The expected count that a last page announces.\<close>

definition expectedOfPage :: "digestPage \<Rightarrow> nat" where
  "expectedOfPage p = pgPageNumber p * 3 + length (pgEntries p)"

text \<open>Two pages flagged last that announce different counts (4 and 5), and a page 0.\<close>

definition lastPageFour :: digestPage where
  "lastPageFour =
     \<lparr>pgInstanceId = ''01234567'', pgDigestTimestamp = 1, pgIsLastPage = True,
      pgPageNumber = 1, pgEntries = [Entry ''0ddddddd'' (Some 4)]\<rparr>"

definition lastPageFive :: digestPage where
  "lastPageFive =
     \<lparr>pgInstanceId = ''01234567'', pgDigestTimestamp = 1, pgIsLastPage = True,
      pgPageNumber = 1, pgEntries = [Entry ''0ddddddd'' (Some 4), Entry ''0eeeeeee'' (Some 5)]\<rparr>"

definition pageZero :: digestPage where
  "pageZero =
     \<lparr>pgInstanceId = ''01234567'', pgDigestTimestamp = 1, pgIsLastPage = False,
      pgPageNumber = 0,
      pgEntries = [Entry ''0aaaaaaa'' (Some 1), Entry ''0bbbbbbb'' (Some 2),
                   Entry ''0ccccccc'' (Some 3)]\<rparr>"

text \<open>A page 2 that is not last, with three entries.\<close>

definition pageTwo :: digestPage where
  "pageTwo =
     \<lparr>pgInstanceId = ''01234567'', pgDigestTimestamp = 1, pgIsLastPage = False,
      pgPageNumber = 2,
      pgEntries = [Entry ''0aaaaaaa'' (Some 1), Entry ''0bbbbbbb'' (Some 2),
                   Entry ''0ccccccc'' (Some 3)]\<rparr>"

text \<open>The digest object that the map holds for a device, if any.\<close>

definition accumulator :: "digester \<Rightarrow> string \<Rightarrow> digest option" where
  "accumulator inst iid = (case digests inst iid of None \<Rightarrow> None | Some r \<Rightarrow> store inst r)"

definition currentEpoch :: "digester \<Rightarrow> string \<Rightarrow> int option" where
  "currentEpoch inst iid = map_option digestTimestamp (accumulator inst iid)"

text \<open>
  Every reference of the map names an allocated object of the store, and that object
  carries the instanceId it is filed under.
\<close>

definition wellFormed :: "digester \<Rightarrow> bool" where
  "wellFormed inst =
     (\<forall>iid r. digests inst iid = Some r \<longrightarrow>
        r < nextRef inst \<and> (\<exists>d. store inst r = Some d \<and> instanceId d = iid))"

text \<open>
  1 when the device of the key has an accumulator of the key's epoch that is not yet
  handled, 0 otherwise.
\<close>

definition pending :: "digester \<Rightarrow> string \<times> int \<Rightarrow> nat" where
  "pending inst k =
     (case accumulator inst (fst k) of
        None \<Rightarrow> 0
      | Some d \<Rightarrow> if digestTimestamp d = snd k \<and> \<not> isHandled d then 1 else 0)"

definition pageKey :: "digestPage \<Rightarrow> string \<times> int" where
  "pageKey p = (pgInstanceId p, pgDigestTimestamp p)"

text \<open>
  The pages that start an epoch: the pages that arrive while their device has no
  accumulator or one with another digestTimestamp, given the current epoch of each
  device before the sequence.
\<close>

fun epochStarts :: "(string \<rightharpoonup> int) \<Rightarrow> (string \<times> int) list \<Rightarrow> (string \<times> int) list" where
  "epochStarts cur [] = []"
| "epochStarts cur ((iid, dts) # ks) =
     (if cur iid = Some dts then epochStarts (cur(iid \<mapsto> dts)) ks
      else (iid, dts) # epochStarts (cur(iid \<mapsto> dts)) ks)"

text \<open>
  What the first statement of \<open>updateDigest\<close> achieves, in either file: an early return
  only for a handled digest of the same epoch; otherwise a digest of the page's
  device and epoch, not handled, filed under the device, with the other devices and
  the call log untouched.
\<close>

definition locates ::
  "digester \<Rightarrow> string \<Rightarrow> int \<Rightarrow> (digester \<times> ref) option \<Rightarrow> bool" where
  "locates inst iid dts loc =
     (case loc of
        None \<Rightarrow>
          (\<exists>d. accumulator inst iid = Some d \<and> digestTimestamp d = dts \<and> isHandled d)
      | Some (inst1, r) \<Rightarrow>
          wellFormed inst1 \<and> digests inst1 iid = Some r \<and> calls inst1 = calls inst
          \<and> (\<forall>j. j \<noteq> iid \<longrightarrow> accumulator inst1 j = accumulator inst j)
          \<and> (\<exists>acc. store inst1 r = Some acc \<and> instanceId acc = iid
                 \<and> digestTimestamp acc = dts \<and> \<not> isHandled acc)
          \<and> (currentEpoch inst iid = Some dts \<longrightarrow> pending inst (iid, dts) = 1))"

text \<open>Pages of device \<open>01234567\<close>: a complete single page of epoch 1, a page of epoch 2, and
  a page 0 of epoch 1 that is not last.\<close>

definition singlePageEpoch1 :: digestPage where
  "singlePageEpoch1 =
     \<lparr>pgInstanceId = ''01234567'', pgDigestTimestamp = 1, pgIsLastPage = True,
      pgPageNumber = 0, pgEntries = [Entry ''0aaaaaaa'' (Some 7)]\<rparr>"

definition pageEpoch2 :: digestPage where
  "pageEpoch2 =
     \<lparr>pgInstanceId = ''01234567'', pgDigestTimestamp = 2, pgIsLastPage = False,
      pgPageNumber = 0, pgEntries = [Entry ''0aaaaaaa'' (Some 7)]\<rparr>"

text \<open>
  Reading index \<open>i\<close> of a JavaScript array: \<open>undefined\<close>, here \<open>None\<close>, for a hole and
  past the end.
\<close>

definition entryAt :: "'a option list \<Rightarrow> nat \<Rightarrow> 'a option" where
  "entryAt arr i = (if i < length arr then arr ! i else None)"

text \<open>
  The digest to which \<open>updateDigest\<close> of the second file adds a page of device \<open>iid\<close>
  and epoch \<open>dts\<close>: the accumulator of the device when it carries that digestTimestamp,
  the blank digest of \<open>createDigest\<close> otherwise.
\<close>

definition baseDigest :: "digester \<Rightarrow> string \<Rightarrow> int \<Rightarrow> int \<Rightarrow> digest" where
  "baseDigest inst iid dts ts =
     (case accumulator inst iid of
        None \<Rightarrow> blankDigest iid dts ts
      | Some d \<Rightarrow> if digestTimestamp d \<noteq> dts then blankDigest iid dts ts else d)"

text \<open>The index \<open>i\<close> is one of the absolute indices of the page.\<close>

definition covers :: "digestPage \<Rightarrow> nat \<Rightarrow> bool" where
  "covers p i = (pgPageNumber p * 3 \<le> i \<and> i < expectedOfPage p)"

text \<open>
  A digest whose content comes from the pages \<open>S\<close>: every populated index holds an
  entry that a page of the digest's device and epoch carries at that absolute index,
  and an expected count is one that a last page of that device and epoch announces.
\<close>

definition sourced :: "digestPage set \<Rightarrow> digest \<Rightarrow> bool" where
  "sourced S d =
     ((\<forall>i. populated (interactions d) i \<longrightarrow>
          (\<exists>p \<in> S. \<exists>j < length (pgEntries p).
             pageKey p = (instanceId d, digestTimestamp d)
             \<and> i = pgPageNumber p * 3 + j
             \<and> entryAt (interactions d) i = Some (pgEntries p ! j)))
      \<and> (\<forall>n. numberOfInteractions d = Number n \<longrightarrow>
            (\<exists>p \<in> S. pageKey p = (instanceId d, digestTimestamp d)
               \<and> pgIsLastPage p \<and> expectedOfPage p = n)))"

text \<open>
  The same for a digest handed to the handler, whose expected count has been deleted:
  the number of its populated indices is a count that a last page announces.
\<close>

definition emittedFrom :: "digestPage set \<Rightarrow> digest \<Rightarrow> bool" where
  "emittedFrom S d =
     ((\<forall>i. populated (interactions d) i \<longrightarrow>
          (\<exists>p \<in> S. \<exists>j < length (pgEntries p).
             pageKey p = (instanceId d, digestTimestamp d)
             \<and> i = pgPageNumber p * 3 + j
             \<and> entryAt (interactions d) i = Some (pgEntries p ! j)))
      \<and> (\<exists>p \<in> S. pageKey p = (instanceId d, digestTimestamp d)
             \<and> pgIsLastPage p
             \<and> expectedOfPage p = card {i. populated (interactions d) i}))"

definition reassembled :: "digestPage set \<Rightarrow> digester \<Rightarrow> bool" where
  "reassembled S inst =
     (wellFormed inst
      \<and> (\<forall>iid d. accumulator inst iid = Some d \<longrightarrow> sourced S d)
      \<and> (\<forall>c \<in> set (digestCalls (calls inst)). emittedFrom S (snd c)))"

text \<open>
  A page 0 flagged last with one entry, and a page 1 of the same epoch with three
  entries.
\<close>

definition lastPageOne :: digestPage where
  "lastPageOne =
     \<lparr>pgInstanceId = ''01234567'', pgDigestTimestamp = 1, pgIsLastPage = True,
      pgPageNumber = 0, pgEntries = [Entry ''0aaaaaaa'' (Some 1)]\<rparr>"

definition openPageOne :: digestPage where
  "openPageOne =
     \<lparr>pgInstanceId = ''01234567'', pgDigestTimestamp = 1, pgIsLastPage = False,
      pgPageNumber = 1,
      pgEntries = [Entry ''0bbbbbbb'' (Some 2), Entry ''0ccccccc'' (Some 3),
                   Entry ''0ddddddd'' (Some 4)]\<rparr>"

section \<open>Facts about the primitives\<close>

lemma and_63_mod: "(x::int) AND 0x3f = x mod 64"
  using take_bit_eq_mask [of 6 x] by (simp add: take_bit_eq_mod mask_eq_exp_minus_1)

lemma and_31_mod: "(x::int) AND 0x1f = x mod 32"
  using take_bit_eq_mask [of 5 x] by (simp add: take_bit_eq_mod mask_eq_exp_minus_1)

lemma digitValue_less_16: "digitValue c = Some d \<Longrightarrow> d < 16"
  by (auto simp: digitValue_def Let_def split: if_splits)

lemma digit_not_white: "digitValue c = Some d \<Longrightarrow> \<not> isWhiteSpace c"
  by (auto simp: digitValue_def isWhiteSpace_def Let_def split: if_splits)

lemma digit_not_sign: "digitValue c = Some d \<Longrightarrow> c \<noteq> CHR ''-'' \<and> c \<noteq> CHR ''+''"
  by (auto simp: digitValue_def Let_def split: if_splits)

lemma digit_not_x: "digitValue c = Some d \<Longrightarrow> c \<noteq> CHR ''x'' \<and> c \<noteq> CHR ''X''"
  by (auto simp: digitValue_def Let_def split: if_splits)

lemma parseInt16_digit1:
  assumes "digitValue c = Some d"
  shows "parseInt16 [c] = Some (int d)"
  using assms digit_not_white [OF assms] digit_not_sign [OF assms]
  by (simp add: parseInt16_def stripSign_def stripPrefix_def)

lemma parseInt16_digit2:
  assumes "digitValue c1 = Some h" and "digitValue c2 = Some l"
  shows "parseInt16 [c1, c2] = Some (int (16 * h + l))"
  using assms digit_not_white [OF assms(1)] digit_not_sign [OF assms(1)]
    digit_not_x [OF assms(2)]
  by (simp add: parseInt16_def stripSign_def stripPrefix_def)

lemma toInt32_small: "- (2 ^ 31) \<le> n \<Longrightarrow> n < 2 ^ 31 \<Longrightarrow> toInt32 (Some n) = n"
  by (simp add: toInt32_def)

lemma toAcceleration_byte:
  assumes "digitValue c1 = Some h" and "digitValue c2 = Some l"
  shows "toAcceleration [c1, c2] isUpper =
          (let v = (if isUpper then drop_bit 2 (int (16 * h + l)) else int (16 * h + l)) AND 0x3f
           in if v = 32 then None
              else if 33 \<le> v \<and> v \<le> 63 then Some (of_int (v - 64) / 16)
              else Some (of_int v / 16))"
proof -
  have h: "h < 16" and l: "l < 16"
    using assms by (auto dest: digitValue_less_16)
  define b where "b = int (16 * h + l)"
  have b: "0 \<le> b" "b < 256" using h l by (auto simp: b_def)
  have p: "toInt32 (parseInt16 [c1, c2]) = b"
    using b by (simp add: parseInt16_digit2 [OF assms] toInt32_def b_def)
  define u where "u = drop_bit 2 b"
  have u: "0 \<le> u" "u < 64" using b by (simp_all add: u_def drop_bit_eq_div)
  have up: "u AND 0x3f = u" using u by (simp add: and_63_mod)
  define w where "w = b AND 0x3f"
  have w: "0 \<le> w" "w < 64" by (simp_all add: w_def and_63_mod)
  define d where "d = (if isUpper then u else w)"
  have d: "0 \<le> d" "d < 64" using u w by (simp_all add: d_def)
  have code: "(if isUpper then drop_bit 2 b else b AND 0x3f) = d"
    by (simp add: d_def u_def w_def)
  have spec: "(if isUpper then u else b) AND 0x3f = d"
    using up by (simp add: d_def w_def)
  have "toAcceleration [c1, c2] isUpper =
          (let v = (if isUpper then u else b) AND 0x3f
           in if v = 32 then None
              else if 33 \<le> v \<and> v \<le> 63 then Some (of_int (v - 64) / 16)
              else Some (of_int v / 16))"
    unfolding toAcceleration_def Let_def p code spec using d by auto
  then show ?thesis unfolding u_def b_def .
qed

text \<open>
  The page number is never negative, so its conversion to a natural number in
  \<open>decodeDigestPage\<close> loses nothing: \<open>parseInt\<close> of at most one character is NaN or a
  single digit.
\<close>

lemma parseInt16_one_char:
  assumes "length s \<le> 1"
  shows "parseInt16 s = None \<or> (\<exists>d<16. parseInt16 s = Some (int d))"
proof (cases s)
  case Nil
  then show ?thesis by (simp add: parseInt16_def stripSign_def stripPrefix_def)
next
  case (Cons c cs)
  with assms have s: "s = [c]" by simp
  show ?thesis
    unfolding s
    by (auto simp: parseInt16_def stripSign_def stripPrefix_def
        split: option.splits dest: digitValue_less_16)
qed

lemma pageNumber_nonneg:
  "0 \<le> drop_bit 1 (toInt32 (parseInt16 (substr data 2 1)))"
proof -
  have "length (substr data 2 1) \<le> 1" by (simp add: substr_def)
  from parseInt16_one_char [OF this] have "0 \<le> toInt32 (parseInt16 (substr data 2 1))"
    by (auto simp: toInt32_def)
  then show ?thesis by (simp add: drop_bit_eq_div)
qed

section \<open>Acceleration decoding\<close>

text \<open>
  Claim C8. For every raw byte, written as its two hexadecimal digits, and either
  flag, \<open>toAcceleration\<close> agrees with: shift right by two when the flag is set, mask
  to the low six bits to get \<open>v\<close> in 0..63, then absent for \<open>v = 32\<close>,
  \<open>(v - 64) / 16\<close> for \<open>v\<close> in 33..63 and \<open>v / 16\<close> for \<open>v\<close> in 0..31. The bytes
  32, 0, 16 and 48 with the flag unset give absent, 0, 1 and -1.
\<close>

theorem toAcceleration_spec:
  "(\<forall>c1 c2 h l isUpper.
      digitValue c1 = Some h \<and> digitValue c2 = Some l \<longrightarrow>
      (let byte = int (16 * h + l);
           v = (if isUpper then drop_bit 2 byte else byte) AND 0x3f
       in 0 \<le> byte \<and> byte \<le> 255 \<and> 0 \<le> v \<and> v \<le> 63 \<and>
          toAcceleration [c1, c2] isUpper =
            (if v = 32 then None
             else if 33 \<le> v \<and> v \<le> 63 then Some (of_int (v - 64) / 16)
             else Some (of_int v / 16))))
   \<and> toAcceleration ''20'' False = None
   \<and> toAcceleration ''00'' False = Some 0
   \<and> toAcceleration ''10'' False = Some 1
   \<and> toAcceleration ''30'' False = Some (- 1)"
proof (intro conjI allI impI)
  fix c1 c2 h l isUpper
  assume a: "digitValue c1 = Some h \<and> digitValue c2 = Some l"
  then have h: "h < 16" and l: "l < 16"
    by (auto dest: digitValue_less_16)
  let ?byte = "int (16 * h + l)"
  let ?v = "(if isUpper then drop_bit 2 ?byte else ?byte) AND 0x3f"
  have v: "0 \<le> ?v" "?v \<le> 63" unfolding and_63_mod by simp_all
  have b: "0 \<le> ?byte" "?byte \<le> 255" using h l by auto
  have "toAcceleration [c1, c2] isUpper =
          (if ?v = 32 then None
           else if 33 \<le> ?v \<and> ?v \<le> 63 then Some (of_int (?v - 64) / 16)
           else Some (of_int ?v / 16))"
    using toAcceleration_byte [of c1 h c2 l isUpper] a by (simp add: Let_def)
  with v b show "let byte = int (16 * h + l);
           v = (if isUpper then drop_bit 2 byte else byte) AND 0x3f
       in 0 \<le> byte \<and> byte \<le> 255 \<and> 0 \<le> v \<and> v \<le> 63 \<and>
          toAcceleration [c1, c2] isUpper =
            (if v = 32 then None
             else if 33 \<le> v \<and> v \<le> 63 then Some (of_int (v - 64) / 16)
             else Some (of_int v / 16))"
    unfolding Let_def by blast
next
  show "toAcceleration ''20'' False = None"
    by (simp add: toAcceleration_def parseInt16_def stripSign_def stripPrefix_def
        isWhiteSpace_def digitValue_def toInt32_def)
next
  show "toAcceleration ''00'' False = Some 0"
    by (simp add: toAcceleration_def parseInt16_def stripSign_def stripPrefix_def
        isWhiteSpace_def digitValue_def toInt32_def)
next
  show "toAcceleration ''10'' False = Some 1"
    by (simp add: toAcceleration_def parseInt16_def stripSign_def stripPrefix_def
        isWhiteSpace_def digitValue_def toInt32_def)
next
  show "toAcceleration ''30'' False = Some (- 1)"
    by (simp add: toAcceleration_def parseInt16_def stripSign_def stripPrefix_def
        isWhiteSpace_def digitValue_def toInt32_def)
qed

theorem toAcceleration_spec_witness:
  "digitValue CHR ''c'' = Some 12 \<and> digitValue CHR ''4'' = Some 4
   \<and> toAcceleration ''c4'' True = Some (- 15 / 16)
   \<and> toAcceleration ''c4'' False = Some (1 / 4)"
proof -
  have d: "digitValue CHR ''c'' = Some 12 \<and> digitValue CHR ''4'' = Some 4"
    by (simp add: digitValue_def)
  have t: "toAcceleration ''c4'' True = Some (- 15 / 16)"
    using toAcceleration_spec d by (simp add: Let_def)
  have f: "toAcceleration ''c4'' False = Some (1 / 4)"
    using toAcceleration_spec d by (simp add: Let_def)
  from d t f show ?thesis by blast
qed

lemma updateDigest_handled:
  assumes "digests inst iid = Some r" and "store inst r = Some d"
    and "isHandled d" and "digestTimestamp d = dts"
  shows "updateDigest inst iid dts isLastPage pageNumber page ts = inst"
    and "updateDigest_lib inst iid dts isLastPage pageNumber page = inst"
  using assms
  by (simp_all add: updateDigest_def updateDigest_locate_def updateDigest_lib_def
      updateDigest_locate_lib_def)

section \<open>Pages for a digest already handled\<close>

text \<open>
  Claim C6. When the digest stored for a device is marked handled, a further page
  with the same instanceId and the same digestTimestamp leaves the digester as it is,
  in both files: no handler is called, the map still holds the same reference and
  the object is unchanged.
\<close>

theorem handled_digest_absorbs_pages:
  assumes "digests inst iid = Some r" and "store inst r = Some d"
    and "isHandled d" and "digestTimestamp d = dts"
  shows "updateDigest inst iid dts isLastPage pageNumber page ts = inst
       \<and> updateDigest_lib inst iid dts isLastPage pageNumber page = inst
       \<and> calls (updateDigest inst iid dts isLastPage pageNumber page ts) = calls inst
       \<and> calls (updateDigest_lib inst iid dts isLastPage pageNumber page) = calls inst
       \<and> digests (updateDigest inst iid dts isLastPage pageNumber page ts) iid = Some r
       \<and> digests (updateDigest_lib inst iid dts isLastPage pageNumber page) iid = Some r
       \<and> store (updateDigest inst iid dts isLastPage pageNumber page ts) r = Some d
       \<and> store (updateDigest_lib inst iid dts isLastPage pageNumber page) r = Some d"
  using assms updateDigest_handled [OF assms] by simp

lemma handledSample_reached:
  "updateDigest (newDigester False True) ''01234567'' 3600 True 0 [Entry ''0aaaaaaa'' (Some 7)]
     1589934703996 = handledSample"
  by (simp add: updateDigest_def updateDigest_locate_def updateDigest_emit_def allocDigest_def
      createDigest_def addDigestPage_def isDigestComplete_def newDigester_def handledSample_def
      DIRACT_DEVICES_PER_PAGE_def)

theorem handled_digest_absorbs_pages_witness:
  "digests handledSample ''01234567'' = Some 0
   \<and> updateDigest handledSample ''01234567'' 3600 True 0 [Entry ''0aaaaaaa'' (Some 7)] 1589934703999
       = handledSample
   \<and> updateDigest_lib handledSample ''01234567'' 3600 False 1 [Entry ''0bbbbbbb'' (Some 1)]
       = handledSample"
proof -
  have a: "digests handledSample ''01234567'' = Some 0" by (simp add: handledSample_def)
  have b: "store handledSample 0 = Some \<lparr>instanceId = ''01234567'', digestTimestamp = 3600,
                       numberOfInteractions = Deleted,
                       interactions = [Some (Entry ''0aaaaaaa'' (Some 7))],
                       timestamp = Some 1589934703996, isHandled = True\<rparr>"
    by (simp add: handledSample_def)
  show ?thesis
    using a handled_digest_absorbs_pages [OF a b, of 3600 True 0 "[Entry ''0aaaaaaa'' (Some 7)]" 1589934703999]
      handled_digest_absorbs_pages [OF a b, of 3600 False 1 "[Entry ''0bbbbbbb'' (Some 1)]" 0]
    by simp
qed

section \<open>Packets that are skipped\<close>

lemma signatures_differ: "DIRACT_PROXIMITY_SIGNATURE \<noteq> DIRACT_DIGEST_SIGNATURE"
  by (simp add: DIRACT_PROXIMITY_SIGNATURE_def DIRACT_DIGEST_SIGNATURE_def)

text \<open>
  Claim C9. A packet whose signature is neither the proximity nor the digest signature,
  a proximity packet while no proximity handler is registered and a digest packet while
  no digest handler is registered leave the digester as it is, in both files: no
  handler call is recorded and the map and the store are unchanged. The functions are
  total on strings and have no failure branch on these paths.
\<close>

theorem unknown_or_unregistered_packet_ignored:
  "(packetSignature packet \<noteq> DIRACT_PROXIMITY_SIGNATURE
      \<and> packetSignature packet \<noteq> DIRACT_DIGEST_SIGNATURE
    \<longrightarrow> processPacket_lib inst packet = inst \<and> processPacket inst packet ts = inst)
   \<and> (packetSignature packet = DIRACT_PROXIMITY_SIGNATURE \<and> \<not> handleDirActProximity inst
    \<longrightarrow> processPacket_lib inst packet = inst \<and> processPacket inst packet ts = inst)
   \<and> (packetSignature packet = DIRACT_DIGEST_SIGNATURE \<and> \<not> handleDirActDigest inst
    \<longrightarrow> processPacket_lib inst packet = inst \<and> processPacket inst packet ts = inst)"
  using signatures_differ
  by (auto simp: processPacket_def processPacket_lib_def Let_def packetSignature_def)

lemma signature_length: "length DIRACT_PROXIMITY_SIGNATURE = 8"
  by (simp add: DIRACT_PROXIMITY_SIGNATURE_def)

lemma packetSignature_eval:
  "packetSignature packet = take 8 (drop 24 packet)"
  unfolding packetSignature_def signature_length
  by (simp add: substr_def DIRACT_PACKET_SIGNATURE_OFFSET_def)

theorem unknown_or_unregistered_packet_ignored_witness:
  "processPacket_lib (newDigester True True)
       ''000000000000000000000000ff8305210a0123456700003f0aaaaaaa28''
     = newDigester True True
   \<and> processPacket_lib (newDigester False True)
       ''000000000000000000000000ff8305010a0123456700003f0aaaaaaa28''
     = newDigester False True
   \<and> processPacket (newDigester True False)
       ''000000000000000000000000ff83051108012345678000010aaaaaaaff'' 5
     = newDigester True False"
proof -
  have 1: "packetSignature ''000000000000000000000000ff8305210a0123456700003f0aaaaaaa28''
             \<noteq> DIRACT_PROXIMITY_SIGNATURE
         \<and> packetSignature ''000000000000000000000000ff8305210a0123456700003f0aaaaaaa28''
             \<noteq> DIRACT_DIGEST_SIGNATURE"
    by (simp add: packetSignature_eval DIRACT_PROXIMITY_SIGNATURE_def DIRACT_DIGEST_SIGNATURE_def)
  have 2: "packetSignature ''000000000000000000000000ff8305010a0123456700003f0aaaaaaa28''
             = DIRACT_PROXIMITY_SIGNATURE
         \<and> \<not> handleDirActProximity (newDigester False True)"
    by (simp add: packetSignature_eval DIRACT_PROXIMITY_SIGNATURE_def newDigester_def)
  have 3: "packetSignature ''000000000000000000000000ff83051108012345678000010aaaaaaaff''
             = DIRACT_DIGEST_SIGNATURE
         \<and> \<not> handleDirActDigest (newDigester True False)"
    by (simp add: packetSignature_eval DIRACT_DIGEST_SIGNATURE_def newDigester_def)
  show ?thesis
    using 1 2 3
      unknown_or_unregistered_packet_ignored
        [of "''000000000000000000000000ff8305210a0123456700003f0aaaaaaa28''"
            "newDigester True True" 0]
      unknown_or_unregistered_packet_ignored
        [of "''000000000000000000000000ff8305010a0123456700003f0aaaaaaa28''"
            "newDigester False True" 0]
      unknown_or_unregistered_packet_ignored
        [of "''000000000000000000000000ff83051108012345678000010aaaaaaaff''"
            "newDigester True False" 5]
    by blast
qed

section \<open>The object handed to the digest handler\<close>

lemma locate_props:
  assumes "updateDigest_locate inst iid dts isLastPage pageNumber page ts = Some (inst1, r)"
  shows "digests inst1 iid = Some r \<and> calls inst1 = calls inst
         \<and> (\<exists>acc. store inst1 r = Some acc \<and> \<not> isHandled acc \<and> digestTimestamp acc = dts)"
  using assms
  by (auto simp: updateDigest_locate_def allocDigest_def createDigest_def addDigestPage_def
      Let_def split: option.splits if_splits)

lemma locate_lib_props:
  assumes "updateDigest_locate_lib inst iid dts isLastPage pageNumber page = Some (inst1, r)"
  shows "digests inst1 iid = Some r \<and> calls inst1 = calls inst
         \<and> (\<exists>acc. store inst1 r = Some acc \<and> \<not> isHandled acc \<and> digestTimestamp acc = dts)"
  using assms
  by (auto simp: updateDigest_locate_lib_def allocDigest_def createDigest_lib_def
      Let_def split: option.splits if_splits)

lemma emit_complete:
  assumes "store inst1 r = Some acc" and "isDigestComplete acc"
  shows "updateDigest_emit inst1 r =
           inst1\<lparr>store := (store inst1)
                    (r \<mapsto> acc\<lparr>numberOfInteractions := Deleted, isHandled := True\<rparr>),
                 calls := calls inst1 @ [DigestCall r (acc\<lparr>numberOfInteractions := Deleted\<rparr>)]\<rparr>"
  using assms by (simp add: updateDigest_emit_def Let_def)

lemma emit_incomplete:
  assumes "store inst1 r = Some acc" and "\<not> isDigestComplete acc"
  shows "updateDigest_emit inst1 r = inst1"
  using assms by (simp add: updateDigest_emit_def)

lemma emit_called:
  assumes "store inst1 r = Some acc" and "\<not> isHandled acc"
    and "calls (updateDigest_emit inst1 r) \<noteq> calls inst1"
  shows "\<exists>d. calls (updateDigest_emit inst1 r) = calls inst1 @ [DigestCall r d]
           \<and> digests (updateDigest_emit inst1 r) = digests inst1
           \<and> isDigestComplete acc
           \<and> d = acc\<lparr>numberOfInteractions := Deleted\<rparr>
           \<and> numberOfInteractions d = Deleted \<and> \<not> isHandled d
           \<and> store (updateDigest_emit inst1 r) r = Some (d\<lparr>isHandled := True\<rparr>)"
proof (cases "isDigestComplete acc")
  case True
  show ?thesis
    unfolding emit_complete [OF assms(1) True] using assms(2) True by simp
next
  case False
  with assms emit_incomplete [OF assms(1) False] show ?thesis by simp
qed

text \<open>
  Claim C10. Whenever \<open>updateDigest\<close> calls the digest handler, in either file, the
  reference it passes is the one the map holds for the device afterwards, so the
  handler gets the stored object and not a copy. At the call the object is the
  complete digest with \<open>numberOfInteractions\<close> deleted and \<open>isHandled\<close> not yet set;
  after the call the same object has \<open>isHandled\<close> set to true.
\<close>

theorem handler_receives_stored_object:
  "(calls (updateDigest inst iid dts isLastPage pageNumber page ts) \<noteq> calls inst \<longrightarrow>
      (\<exists>r d inst1 acc.
         updateDigest_locate inst iid dts isLastPage pageNumber page ts = Some (inst1, r)
         \<and> store inst1 r = Some acc \<and> isDigestComplete acc
         \<and> d = acc\<lparr>numberOfInteractions := Deleted\<rparr>
         \<and> calls (updateDigest inst iid dts isLastPage pageNumber page ts)
              = calls inst @ [DigestCall r d]
         \<and> digests (updateDigest inst iid dts isLastPage pageNumber page ts) iid = Some r
         \<and> numberOfInteractions d = Deleted \<and> \<not> isHandled d
         \<and> store (updateDigest inst iid dts isLastPage pageNumber page ts) r
              = Some (d\<lparr>isHandled := True\<rparr>)))
   \<and> (calls (updateDigest_lib inst iid dts isLastPage pageNumber page) \<noteq> calls inst \<longrightarrow>
      (\<exists>r d inst1 acc.
         updateDigest_locate_lib inst iid dts isLastPage pageNumber page = Some (inst1, r)
         \<and> store inst1 r = Some acc \<and> isDigestComplete acc
         \<and> d = acc\<lparr>numberOfInteractions := Deleted\<rparr>
         \<and> calls (updateDigest_lib inst iid dts isLastPage pageNumber page)
              = calls inst @ [DigestCall r d]
         \<and> digests (updateDigest_lib inst iid dts isLastPage pageNumber page) iid = Some r
         \<and> numberOfInteractions d = Deleted \<and> \<not> isHandled d
         \<and> store (updateDigest_lib inst iid dts isLastPage pageNumber page) r
              = Some (d\<lparr>isHandled := True\<rparr>)))"
proof (intro conjI impI)
  assume c: "calls (updateDigest inst iid dts isLastPage pageNumber page ts) \<noteq> calls inst"
  then obtain inst1 r where
    l: "updateDigest_locate inst iid dts isLastPage pageNumber page ts = Some (inst1, r)"
    by (cases "updateDigest_locate inst iid dts isLastPage pageNumber page ts")
      (auto simp: updateDigest_def)
  then have u: "updateDigest inst iid dts isLastPage pageNumber page ts = updateDigest_emit inst1 r"
    by (simp add: updateDigest_def)
  from locate_props [OF l] obtain acc where
    p: "digests inst1 iid = Some r" "calls inst1 = calls inst"
       "store inst1 r = Some acc" "\<not> isHandled acc"
    by blast
  from c have "calls (updateDigest_emit inst1 r) \<noteq> calls inst1"
    by (simp add: u p(2))
  from emit_called [OF p(3) p(4) this] l p show
    "\<exists>r d inst1 acc.
         updateDigest_locate inst iid dts isLastPage pageNumber page ts = Some (inst1, r)
         \<and> store inst1 r = Some acc \<and> isDigestComplete acc
         \<and> d = acc\<lparr>numberOfInteractions := Deleted\<rparr>
         \<and> calls (updateDigest inst iid dts isLastPage pageNumber page ts)
              = calls inst @ [DigestCall r d]
         \<and> digests (updateDigest inst iid dts isLastPage pageNumber page ts) iid = Some r
         \<and> numberOfInteractions d = Deleted \<and> \<not> isHandled d
         \<and> store (updateDigest inst iid dts isLastPage pageNumber page ts) r
              = Some (d\<lparr>isHandled := True\<rparr>)"
    unfolding u by auto
next
  assume c: "calls (updateDigest_lib inst iid dts isLastPage pageNumber page) \<noteq> calls inst"
  then obtain inst1 r where
    l: "updateDigest_locate_lib inst iid dts isLastPage pageNumber page = Some (inst1, r)"
    by (cases "updateDigest_locate_lib inst iid dts isLastPage pageNumber page")
      (auto simp: updateDigest_lib_def)
  then have u: "updateDigest_lib inst iid dts isLastPage pageNumber page = updateDigest_emit inst1 r"
    by (simp add: updateDigest_lib_def)
  from locate_lib_props [OF l] obtain acc where
    p: "digests inst1 iid = Some r" "calls inst1 = calls inst"
       "store inst1 r = Some acc" "\<not> isHandled acc"
    by blast
  from c have "calls (updateDigest_emit inst1 r) \<noteq> calls inst1"
    by (simp add: u p(2))
  from emit_called [OF p(3) p(4) this] l p show
    "\<exists>r d inst1 acc.
         updateDigest_locate_lib inst iid dts isLastPage pageNumber page = Some (inst1, r)
         \<and> store inst1 r = Some acc \<and> isDigestComplete acc
         \<and> d = acc\<lparr>numberOfInteractions := Deleted\<rparr>
         \<and> calls (updateDigest_lib inst iid dts isLastPage pageNumber page)
              = calls inst @ [DigestCall r d]
         \<and> digests (updateDigest_lib inst iid dts isLastPage pageNumber page) iid = Some r
         \<and> numberOfInteractions d = Deleted \<and> \<not> isHandled d
         \<and> store (updateDigest_lib inst iid dts isLastPage pageNumber page) r
              = Some (d\<lparr>isHandled := True\<rparr>)"
    unfolding u by auto
qed

theorem handler_receives_stored_object_witness:
  "calls (updateDigest (newDigester False True) ''01234567'' 3600 True 0
            [Entry ''0aaaaaaa'' (Some 7)] 1589934703996) \<noteq> calls (newDigester False True)
   \<and> (\<exists>r d. calls handledSample = [DigestCall r d] \<and> digests handledSample ''01234567'' = Some r
         \<and> numberOfInteractions d = Deleted \<and> \<not> isHandled d
         \<and> store handledSample r = Some (d\<lparr>isHandled := True\<rparr>))"
proof -
  have c: "calls (updateDigest (newDigester False True) ''01234567'' 3600 True 0
            [Entry ''0aaaaaaa'' (Some 7)] 1589934703996) \<noteq> calls (newDigester False True)"
    unfolding handledSample_reached by (simp add: handledSample_def newDigester_def)
  have e: "calls (newDigester False True) = []" by (simp add: newDigester_def)
  from c handler_receives_stored_object
         [of "newDigester False True" "''01234567''" 3600 True 0 "[Entry ''0aaaaaaa'' (Some 7)]"
             1589934703996]
  show ?thesis unfolding handledSample_reached e by auto
qed

section \<open>Page number and cyclic count\<close>

lemma take2_drop: "n + 2 \<le> length xs \<Longrightarrow> take 2 (drop n xs) = [xs ! n, xs ! Suc n]"
  by (simp add: take_Suc_conv_app_nth numeral_2_eq_2)

lemma take1_drop: "n + 1 \<le> length xs \<Longrightarrow> take 1 (drop n xs) = [xs ! n]"
  by (simp add: take_Suc_conv_app_nth)

lemma body_byte_digits:
  assumes "34 \<le> length packet"
  shows "substr (substrFrom packet 30) 2 2 = [packet ! 32, packet ! 33]"
    and "substr (substrFrom packet 30) 2 1 = [packet ! 32]"
  using assms take2_drop [of 32 packet] take1_drop [of 32 packet]
  by (simp_all add: substr_def substrFrom_def)

lemma top_bits:
  assumes "h < 16" and "l < 16"
  shows "drop_bit 5 (int (16 * h + l)) = drop_bit 1 (int h)"
    and "0 \<le> drop_bit 1 (int h)" and "drop_bit 1 (int h) \<le> 7"
  using assms by (simp_all add: drop_bit_eq_div) 

text \<open>
  Claim C7 reads \<open>cyclicCount\<close> and \<open>pageNumber\<close> as bits 1 to 4 of the first body
  byte, \<open>(byte >> 1) & 0xf\<close>. The code shifts the first hexadecimal digit of that
  byte, not the byte: for the byte \<open>0a\<close> it yields 0 where the claim gives 5, and for
  the byte \<open>08\<close> it yields page 0 where the claim gives 4.
\<close>

theorem cyclicCount_pageNumber_counterexample:
  "firstBodyByte proximitySample = 10
   \<and> cyclicCount (decodeProximity proximitySample None) = 0
   \<and> cyclicCount (decodeProximity proximitySample None)
       \<noteq> drop_bit 1 (firstBodyByte proximitySample) AND 0xf
   \<and> firstBodyByte digestSample = 8
   \<and> pgPageNumber (decodeDigestPage_lib digestSample) = 0
   \<and> int (pgPageNumber (decodeDigestPage_lib digestSample))
       \<noteq> drop_bit 1 (firstBodyByte digestSample) AND 0xf"
  by (simp add: firstBodyByte_def proximitySample_def digestSample_def decodeProximity_def
      decodeDigestPage_lib_def substr_def substrFrom_def parseInt16_def stripSign_def
      stripPrefix_def isWhiteSpace_def digitValue_def toInt32_def Let_def)

text \<open>
  Claim C7, amended. For every packet that carries its first body byte as two
  hexadecimal digits, the cyclicCount of the proximity decoder and the pageNumber of
  both digest decoders are the top three bits of that byte, \<open>byte >> 5\<close>, the bits
  above the five bits of \<open>frameLength\<close>; both range over 0 to 7.
\<close>

theorem cyclicCount_pageNumber_top_bits:
  assumes "34 \<le> length packet"
    and "digitValue (packet ! 32) = Some h" and "digitValue (packet ! 33) = Some l"
  shows "firstBodyByte packet = int (16 * h + l)
       \<and> cyclicCount (decodeProximity packet ts) = drop_bit 5 (firstBodyByte packet)
       \<and> int (pgPageNumber (decodeDigestPage_lib packet)) = drop_bit 5 (firstBodyByte packet)
       \<and> int (pgPageNumber (decodeDigestPage packet)) = drop_bit 5 (firstBodyByte packet)
       \<and> 0 \<le> drop_bit 5 (firstBodyByte packet) \<and> drop_bit 5 (firstBodyByte packet) \<le> 7"
proof -
  have h: "h < 16" and l: "l < 16"
    using assms by (auto dest: digitValue_less_16)
  have b: "firstBodyByte packet = int (16 * h + l)"
    unfolding firstBodyByte_def body_byte_digits [OF assms(1)]
      parseInt16_digit2 [OF assms(2,3)]
    using h l by (simp add: toInt32_def)
  have n: "toInt32 (parseInt16 (substr (substrFrom packet 30) 2 1)) = int h"
    unfolding body_byte_digits [OF assms(1)] parseInt16_digit1 [OF assms(2)]
    using h by (simp add: toInt32_def)
  have c: "cyclicCount (decodeProximity packet ts) = drop_bit 1 (int h)"
    unfolding decodeProximity_def Let_def n by simp
  have p1: "int (pgPageNumber (decodeDigestPage_lib packet)) = drop_bit 1 (int h)"
    unfolding decodeDigestPage_lib_def Let_def n using top_bits(2) [OF h l] by simp
  have p2: "int (pgPageNumber (decodeDigestPage packet)) = drop_bit 1 (int h)"
    unfolding decodeDigestPage_def Let_def n using top_bits(2) [OF h l] by simp
  show ?thesis
    unfolding c p1 p2 unfolding b top_bits(1) [OF h l]
    using top_bits(2,3) [OF h l] by simp
qed

theorem cyclicCount_pageNumber_top_bits_witness:
  "34 \<le> length proximitySample
   \<and> digitValue (proximitySample ! 32) = Some 0 \<and> digitValue (proximitySample ! 33) = Some 10
   \<and> firstBodyByte proximitySample = 10
   \<and> cyclicCount (decodeProximity proximitySample None) = drop_bit 5 (firstBodyByte proximitySample)
   \<and> pgPageNumber (decodeDigestPage proximitySample) = 0"
proof -
  have a: "34 \<le> length proximitySample" by (simp add: proximitySample_def)
  have b: "digitValue (proximitySample ! 32) = Some 0"
    by (simp add: proximitySample_def digitValue_def)
  have c: "digitValue (proximitySample ! 33) = Some 10"
    by (simp add: proximitySample_def digitValue_def)
  note t = cyclicCount_pageNumber_top_bits [OF a b c, of None]
  from t have f: "firstBodyByte proximitySample = 10" by simp
  from t have g: "int (pgPageNumber (decodeDigestPage proximitySample)) = 0"
    unfolding f by (simp add: drop_bit_eq_div)
  from a b c t f g show ?thesis by simp
qed

section \<open>The two page decoders\<close>

lemma digestPageLoop_rescale:
  "digestPageLoop data frameLength pageIndex =
     map rescaleCount (digestPageLoop_lib data frameLength pageIndex)"
proof (induction data frameLength pageIndex rule: digestPageLoop_lib.induct)
  case (1 data frameLength pageIndex)
  show ?case
  proof (cases "int pageIndex < frameLength + 2")
    case True
    then show ?thesis
      using "1.IH" [OF True refl refl]
      by (subst digestPageLoop.simps, subst digestPageLoop_lib.simps)
        (simp add: rescaleCount_def Let_def split: option.splits)
  next
    case False
    then show ?thesis
      by (subst digestPageLoop.simps, subst digestPageLoop_lib.simps) simp
  qed
qed

lemma rescaleCount_small:
  "(\<forall>c. entryCount e = Some c \<longrightarrow> c \<le> 128) \<Longrightarrow> rescaleCount e = e"
  by (cases e) (auto simp: rescaleCount_def split: option.splits)

text \<open>
  Claim C4 says that the two files extract the same page entries. For a count byte
  \<open>ff\<close>, \<open>lib/diractdigester.js\<close> yields the count 255 and the second file 32512.
\<close>

theorem decoders_differ_on_count_counterexample:
  "pgEntries (decodeDigestPage_lib digestSample) = [Entry ''0aaaaaaa'' (Some 255)]
   \<and> pgEntries (decodeDigestPage digestSample) = [Entry ''0aaaaaaa'' (Some 32512)]
   \<and> decodeDigestPage_lib digestSample \<noteq> decodeDigestPage digestSample"
proof -
  have a: "pgEntries (decodeDigestPage_lib digestSample) = [Entry ''0aaaaaaa'' (Some 255)]"
    by (simp add: digestSample_def decodeDigestPage_lib_def digestPageLoop_lib.simps
      substr_def substrFrom_def parseInt16_def stripSign_def stripPrefix_def isWhiteSpace_def digitValue_def toInt32_def
      Let_def)
  have b: "pgEntries (decodeDigestPage digestSample) = [Entry ''0aaaaaaa'' (Some 32512)]"
    by (simp add: digestSample_def decodeDigestPage_def digestPageLoop.simps
      substr_def substrFrom_def parseInt16_def stripSign_def stripPrefix_def isWhiteSpace_def digitValue_def toInt32_def
      Let_def)
  from a b show ?thesis by auto
qed

text \<open>
  Claim C4, amended. From every digest packet the two files extract the same page
  number, instanceId, last-page flag, digestTimestamp and entry identifiers; the
  counts of the second file are those of \<open>lib/diractdigester.js\<close> with every value
  above 128 replaced by \<open>(count & 0x7f) << 8\<close>, so the two pages are equal whenever
  no count exceeds 128.
\<close>

theorem decoders_agree_up_to_count:
  "decodeDigestPage packet =
     (decodeDigestPage_lib packet)
       \<lparr>pgEntries := map rescaleCount (pgEntries (decodeDigestPage_lib packet))\<rparr>
   \<and> ((\<forall>e \<in> set (pgEntries (decodeDigestPage_lib packet)).
          \<forall>c. entryCount e = Some c \<longrightarrow> c \<le> 128)
        \<longrightarrow> decodeDigestPage packet = decodeDigestPage_lib packet)"
proof -
  have a: "decodeDigestPage packet =
     (decodeDigestPage_lib packet)
       \<lparr>pgEntries := map rescaleCount (pgEntries (decodeDigestPage_lib packet))\<rparr>"
    by (simp add: decodeDigestPage_def decodeDigestPage_lib_def Let_def digestPageLoop_rescale)
  have "map rescaleCount (pgEntries (decodeDigestPage_lib packet))
          = pgEntries (decodeDigestPage_lib packet)"
    if "\<forall>e \<in> set (pgEntries (decodeDigestPage_lib packet)).
          \<forall>c. entryCount e = Some c \<longrightarrow> c \<le> 128"
    using that by (simp add: map_idI rescaleCount_small)
  with a show ?thesis by simp
qed


theorem decoders_agree_up_to_count_witness:
  "pgEntries (decodeDigestPage_lib digestSampleSmall) = [Entry ''0aaaaaaa'' (Some 39)]
   \<and> decodeDigestPage digestSampleSmall = decodeDigestPage_lib digestSampleSmall
   \<and> pgEntries (decodeDigestPage digestSampleSmall) = [Entry ''0aaaaaaa'' (Some 39)]"
proof -
  have e: "pgEntries (decodeDigestPage_lib digestSampleSmall) = [Entry ''0aaaaaaa'' (Some 39)]"
    by (simp add: digestSampleSmall_def decodeDigestPage_lib_def digestPageLoop_lib.simps
      substr_def substrFrom_def parseInt16_def stripSign_def stripPrefix_def isWhiteSpace_def
      digitValue_def toInt32_def Let_def)
  then have h: "\<forall>e \<in> set (pgEntries (decodeDigestPage_lib digestSampleSmall)).
          \<forall>c. entryCount e = Some c \<longrightarrow> c \<le> 128"
    by simp
  with decoders_agree_up_to_count [of digestSampleSmall]
  have "decodeDigestPage digestSampleSmall = decodeDigestPage_lib digestSampleSmall"
    by blast
  with h e show ?thesis by simp
qed

section \<open>A digest of two pages\<close>

lemmas reassembler_defs =
  updateDigest_def updateDigest_locate_def updateDigest_emit_def allocDigest_def
  createDigest_def addDigestPage_def isDigestComplete_def newDigester_def
  DIRACT_DEVICES_PER_PAGE_def

lemmas reassembler_lib_defs =
  updateDigest_lib_def updateDigest_locate_lib_def updateDigest_emit_def allocDigest_def
  createDigest_lib_def addDigestPage_lib_def isDigestComplete_def newDigester_def
  DIRACT_DEVICES_PER_PAGE_def

text \<open>
  Claim C2 on \<open>lib/diractdigester.js\<close>: with page 0 (three entries) and page 1 (last,
  two entries) of one device and one digestTimestamp, the handler is never called,
  whichever page comes first. Delivered first, page 0 leaves \<open>numberOfInteractions\<close>
  at \<open>null\<close> and \<open>addDigestPage\<close> never sets it; delivered first, page 1 sets it to
  \<open>pageNumber + page.length = 3\<close>, which the five entries never equal.
\<close>

theorem two_page_digest_lost_by_lib:
  "digestCalls (calls (feedPages_lib (newDigester proximityHandler True)
      [firstPage iid dts e0 e1 e2, secondPage iid dts e3 e4])) = []
   \<and> digestCalls (calls (feedPages_lib (newDigester proximityHandler True)
      [secondPage iid dts e3 e4, firstPage iid dts e0 e1 e2])) = []"
  by (simp add: firstPage_def secondPage_def reassembler_lib_defs eval_nat_numeral)

text \<open>The second file does deliver it, the same in both orders.\<close>

lemma two_page_digest_second_file:
  "digestCalls (calls (feedPages (newDigester proximityHandler True)
      [(firstPage iid dts e0 e1 e2, ta), (secondPage iid dts e3 e4, tb)])) =
     [(0, \<lparr>instanceId = iid, digestTimestamp = dts, numberOfInteractions = Deleted,
           interactions = [Some e0, Some e1, Some e2, Some e3, Some e4],
           timestamp = Some ta, isHandled = False\<rparr>)]"
  "digestCalls (calls (feedPages (newDigester proximityHandler True)
      [(secondPage iid dts e3 e4, ta), (firstPage iid dts e0 e1 e2, tb)])) =
     [(0, \<lparr>instanceId = iid, digestTimestamp = dts, numberOfInteractions = Deleted,
           interactions = [Some e0, Some e1, Some e2, Some e3, Some e4],
           timestamp = Some ta, isHandled = False\<rparr>)]"
  by (simp_all add: firstPage_def secondPage_def reassembler_defs eval_nat_numeral)

section \<open>Arrays with holes: which indices are populated\<close>

lemma populated_Nil: "populated [] i = False"
  by (simp add: populated_def)

lemma populated_Cons_0: "populated (x # xs) 0 = (x \<noteq> None)"
  by (simp add: populated_def)

lemma populated_Cons_Suc: "populated (x # xs) (Suc i) = populated xs i"
  by (simp add: populated_def)

lemmas populated_simps = populated_Nil populated_Cons_0 populated_Cons_Suc

lemma populated_setIndex: "populated (setIndex arr i v) j = (j = i \<or> populated arr j)"
proof (induction arr i v arbitrary: j rule: setIndex.induct)
  case (1 v)
  then show ?case by (cases j) (simp_all add: populated_simps)
next
  case (2 i v)
  then show ?case by (cases j) (simp_all add: populated_simps)
next
  case (3 x xs v)
  then show ?case by (cases j) (simp_all add: populated_simps)
next
  case (4 x xs i v)
  then show ?case by (cases j) (simp_all add: populated_simps)
qed

lemma populated_writePage:
  "populated (writePage arr offset es) j =
     ((offset \<le> j \<and> j < offset + length es) \<or> populated arr j)"
proof (induction es arbitrary: arr offset)
  case Nil
  then show ?case by auto
next
  case (Cons e es)
  show ?case
    unfolding writePage.simps Cons.IH populated_setIndex by auto
qed

lemma populated_set_Cons:
  "{i. populated (x # xs) i} =
     (if x = None then {} else {0}) \<union> Suc ` {i. populated xs i}"
proof (rule set_eqI)
  fix j
  show "j \<in> {i. populated (x # xs) i} \<longleftrightarrow>
        j \<in> (if x = None then {} else {0}) \<union> Suc ` {i. populated xs i}"
    by (cases j) (auto simp: populated_simps)
qed

lemma finite_populated: "finite {i. populated arr i}"
proof -
  have "{i. populated arr i} \<subseteq> {..<length arr}"
    by (auto simp: populated_def)
  then show ?thesis by (rule finite_subset) simp
qed

lemma countEntries_card: "countEntries arr = card {i. populated arr i}"
proof (induction arr)
  case Nil
  then show ?case by (simp add: populated_simps)
next
  case (Cons x xs)
  have img: "card (Suc ` {i. populated xs i}) = card {i. populated xs i}"
    by (rule card_image) simp
  have fin: "finite (Suc ` {i. populated xs i})"
    by (rule finite_imageI) (rule finite_populated)
  show ?case
  proof (cases x)
    case None
    then show ?thesis
      using Cons.IH img by (simp add: populated_set_Cons)
  next
    case (Some v)
    have "0 \<notin> Suc ` {i. populated xs i}" by auto
    then have "card ({0} \<union> Suc ` {i. populated xs i}) = Suc (card {i. populated xs i})"
      using fin img by simp
    then show ?thesis
      using Some Cons.IH by (simp add: populated_set_Cons)
  qed
qed

lemma isDigestComplete_iff:
  "isDigestComplete d \<longleftrightarrow>
     (\<exists>n. numberOfInteractions d = Number n \<and> card {i. populated (interactions d) i} = n)"
  by (cases "numberOfInteractions d") (auto simp: isDigestComplete_def countEntries_card)

lemma full_below:
  assumes "card {i. populated arr i} = n" and "\<forall>i. populated arr i \<longrightarrow> i < n"
  shows "populated arr i = (i < n)"
proof -
  have sub: "{i. populated arr i} \<subseteq> {..<n}" using assms(2) by auto
  have "{i. populated arr i} = {..<n}"
    by (rule card_subset_eq) (use sub assms(1) in simp_all)
  then show ?thesis by auto
qed

section \<open>Adding a page to a digest\<close>

lemma addDigestPage_fields:
  "numberOfInteractions (addDigestPage d isLastPage pageNumber page) =
     (if isLastPage then Number (pageNumber * 3 + length page) else numberOfInteractions d)"
  "interactions (addDigestPage d isLastPage pageNumber page) =
     writePage (interactions d) (pageNumber * 3) page"
  "instanceId (addDigestPage d isLastPage pageNumber page) = instanceId d"
  "digestTimestamp (addDigestPage d isLastPage pageNumber page) = digestTimestamp d"
  "isHandled (addDigestPage d isLastPage pageNumber page) = isHandled d"
  "timestamp (addDigestPage d isLastPage pageNumber page) = timestamp d"
  by (simp_all add: addDigestPage_def DIRACT_DEVICES_PER_PAGE_def Let_def)

lemma createDigest_blank:
  "createDigest iid dts isLastPage pageNumber page ts =
     addDigestPage (blankDigest iid dts ts) isLastPage pageNumber page"
  by (simp add: createDigest_def blankDigest_def)

lemma populated_addDigestPage:
  "populated (interactions (addDigestPage d isLastPage pageNumber page)) j =
     ((pageNumber * 3 \<le> j \<and> j < pageNumber * 3 + length page) \<or> populated (interactions d) j)"
  by (simp add: addDigestPage_fields populated_writePage)

section \<open>Well-formed digesters\<close>

lemma wellFormed_new: "wellFormed (newDigester proximityHandler digestHandler)"
  by (simp add: wellFormed_def newDigester_def)

lemma createDigest_fields:
  "instanceId (createDigest iid dts isLastPage pageNumber page ts) = iid"
  "digestTimestamp (createDigest iid dts isLastPage pageNumber page ts) = dts"
  "isHandled (createDigest iid dts isLastPage pageNumber page ts) = False"
  by (simp_all add: createDigest_blank addDigestPage_fields blankDigest_def)

lemma createDigest_lib_fields:
  "instanceId (createDigest_lib iid dts isLastPage pageNumber page) = iid"
  "digestTimestamp (createDigest_lib iid dts isLastPage pageNumber page) = dts"
  "isHandled (createDigest_lib iid dts isLastPage pageNumber page) = False"
  by (simp_all add: createDigest_lib_def Let_def)

lemma wellFormed_filed:
  assumes "wellFormed inst" and "digests inst j = Some r" and "store inst r = Some d"
  shows "instanceId d = j"
proof -
  from assms(1,2) obtain d' where "store inst r = Some d'" "instanceId d' = j"
    unfolding wellFormed_def by blast
  with assms(3) show ?thesis by simp
qed

text \<open>Filing a new object under a device.\<close>

lemma locates_alloc:
  assumes wf: "wellFormed inst"
    and d: "instanceId d = iid" "digestTimestamp d = dts" "\<not> isHandled d"
    and e: "currentEpoch inst iid \<noteq> Some dts"
    and a: "allocDigest inst d = (inst1, r)"
  shows "locates inst iid dts (Some (inst1\<lparr>digests := (digests inst1)(iid \<mapsto> r)\<rparr>, r))"
proof -
  from a have r: "r = nextRef inst"
    and i: "inst1 = inst\<lparr>store := (store inst)(nextRef inst \<mapsto> d), nextRef := Suc (nextRef inst)\<rparr>"
    by (auto simp: allocDigest_def)
  have old: "r' < nextRef inst" if "digests inst j = Some r'" for j r'
    using wf that by (auto simp: wellFormed_def)
  have w: "wellFormed (inst1\<lparr>digests := (digests inst1)(iid \<mapsto> r)\<rparr>)"
    unfolding wellFormed_def
  proof (intro allI impI)
    fix j r'
    assume h: "digests (inst1\<lparr>digests := (digests inst1)(iid \<mapsto> r)\<rparr>) j = Some r'"
    show "r' < nextRef (inst1\<lparr>digests := (digests inst1)(iid \<mapsto> r)\<rparr>)
          \<and> (\<exists>d. store (inst1\<lparr>digests := (digests inst1)(iid \<mapsto> r)\<rparr>) r' = Some d
                  \<and> instanceId d = j)"
    proof (cases "j = iid")
      case True
      with h have "r' = r" by simp
      then show ?thesis using d(1) True by (simp add: i r)
    next
      case False
      with h have g: "digests inst j = Some r'" by (simp add: i)
      from old [OF g] have "r' \<noteq> nextRef inst" by simp
      moreover from wf g obtain d' where "store inst r' = Some d'" "instanceId d' = j"
        by (auto simp: wellFormed_def)
      ultimately show ?thesis using old [OF g] by (simp add: i)
    qed
  qed
  have other: "accumulator (inst1\<lparr>digests := (digests inst1)(iid \<mapsto> r)\<rparr>) j = accumulator inst j"
    if "j \<noteq> iid" for j
  proof (cases "digests inst j")
    case None
    with that show ?thesis by (simp add: accumulator_def i)
  next
    case (Some r')
    from old [OF Some] have "r' \<noteq> nextRef inst" by simp
    with that Some show ?thesis by (simp add: accumulator_def i)
  qed
  show ?thesis
    unfolding locates_def using w other d e by (simp add: i r)
qed

lemma locates_second:
  assumes "wellFormed inst"
  shows "locates inst iid dts (updateDigest_locate inst iid dts isLastPage pageNumber page ts)"
proof (cases "digests inst iid")
  case None
  then have e: "currentEpoch inst iid \<noteq> Some dts"
    by (simp add: currentEpoch_def accumulator_def)
  obtain inst1 r where a:
    "allocDigest inst (createDigest iid dts isLastPage pageNumber page ts) = (inst1, r)"
    by (cases "allocDigest inst (createDigest iid dts isLastPage pageNumber page ts)")
  from locates_alloc [OF assms _ _ _ e a] show ?thesis
    using None a by (simp add: updateDigest_locate_def createDigest_fields)
next
  case (Some r)
  with assms obtain d where d: "store inst r = Some d" "instanceId d = iid"
    by (auto simp: wellFormed_def)
  have acc: "accumulator inst iid = Some d"
    using Some d by (simp add: accumulator_def)
  show ?thesis
  proof (cases "digestTimestamp d \<noteq> dts")
    case True
    then have e: "currentEpoch inst iid \<noteq> Some dts"
      by (simp add: currentEpoch_def acc)
    obtain inst1 r1 where a:
      "allocDigest inst (createDigest iid dts isLastPage pageNumber page ts) = (inst1, r1)"
      by (cases "allocDigest inst (createDigest iid dts isLastPage pageNumber page ts)")
    from locates_alloc [OF assms _ _ _ e a] show ?thesis
      using Some d True a by (simp add: updateDigest_locate_def createDigest_fields)
  next
    case same: False
    show ?thesis
    proof (cases "isHandled d")
      case True
      then show ?thesis
        using Some d same acc by (simp add: updateDigest_locate_def locates_def)
    next
      case False
      let ?acc = "addDigestPage d isLastPage pageNumber page"
      let ?inst1 = "inst\<lparr>store := (store inst)(r \<mapsto> ?acc)\<rparr>"
      have l: "updateDigest_locate inst iid dts isLastPage pageNumber page ts = Some (?inst1, r)"
        using Some d same False by (simp add: updateDigest_locate_def)
      have uniq: "j = iid" if "digests inst j = Some r" for j
        using wellFormed_filed [OF assms that d(1)] d(2) by simp
      have w: "wellFormed ?inst1"
        using assms d uniq by (auto simp: wellFormed_def addDigestPage_fields)
      have other: "accumulator ?inst1 j = accumulator inst j" if "j \<noteq> iid" for j
        using that uniq by (cases "digests inst j") (auto simp: accumulator_def)
      have p: "pending inst (iid, dts) = 1"
        using acc same False by (simp add: pending_def)
      show ?thesis
        unfolding l locates_def
        using w other p Some d same False by (simp add: addDigestPage_fields)
    qed
  qed
qed

lemma locates_lib:
  assumes "wellFormed inst"
  shows "locates inst iid dts (updateDigest_locate_lib inst iid dts isLastPage pageNumber page)"
proof (cases "digests inst iid")
  case None
  then have e: "currentEpoch inst iid \<noteq> Some dts"
    by (simp add: currentEpoch_def accumulator_def)
  obtain inst1 r where a:
    "allocDigest inst (createDigest_lib iid dts isLastPage pageNumber page) = (inst1, r)"
    by (cases "allocDigest inst (createDigest_lib iid dts isLastPage pageNumber page)")
  from locates_alloc [OF assms _ _ _ e a] show ?thesis
    using None a by (simp add: updateDigest_locate_lib_def createDigest_lib_fields)
next
  case (Some r)
  with assms obtain d where d: "store inst r = Some d" "instanceId d = iid"
    by (auto simp: wellFormed_def)
  have acc: "accumulator inst iid = Some d"
    using Some d by (simp add: accumulator_def)
  show ?thesis
  proof (cases "digestTimestamp d \<noteq> dts")
    case True
    then have e: "currentEpoch inst iid \<noteq> Some dts"
      by (simp add: currentEpoch_def acc)
    obtain inst1 r1 where a:
      "allocDigest inst (createDigest_lib iid dts isLastPage pageNumber page) = (inst1, r1)"
      by (cases "allocDigest inst (createDigest_lib iid dts isLastPage pageNumber page)")
    from locates_alloc [OF assms _ _ _ e a] show ?thesis
      using Some d True a by (simp add: updateDigest_locate_lib_def createDigest_lib_fields)
  next
    case same: False
    show ?thesis
    proof (cases "isHandled d")
      case True
      then show ?thesis
        using Some d same acc by (simp add: updateDigest_locate_lib_def locates_def)
    next
      case False
      let ?acc = "d\<lparr>interactions := addDigestPage_lib (interactions d) pageNumber page\<rparr>"
      let ?inst1 = "inst\<lparr>store := (store inst)(r \<mapsto> ?acc)\<rparr>"
      have l: "updateDigest_locate_lib inst iid dts isLastPage pageNumber page = Some (?inst1, r)"
        using Some d same False by (simp add: updateDigest_locate_lib_def)
      have uniq: "j = iid" if "digests inst j = Some r" for j
        using wellFormed_filed [OF assms that d(1)] d(2) by simp
      have w: "wellFormed ?inst1"
        using assms d uniq by (auto simp: wellFormed_def)
      have other: "accumulator ?inst1 j = accumulator inst j" if "j \<noteq> iid" for j
        using that uniq by (cases "digests inst j") (auto simp: accumulator_def)
      have p: "pending inst (iid, dts) = 1"
        using acc same False by (simp add: pending_def)
      show ?thesis
        unfolding l locates_def
        using w other p Some d same False by simp
    qed
  qed
qed

section \<open>One page: what it adds to the calls\<close>

lemma digestCalls_append: "digestCalls (xs @ ys) = digestCalls xs @ digestCalls ys"
proof (induction xs)
  case Nil
  then show ?case by simp
next
  case (Cons c cs)
  then show ?case by (cases c) simp_all
qed

lemma emittedKeys_calls: "calls a = calls b \<Longrightarrow> emittedKeys a = emittedKeys b"
  by (simp add: emittedKeys_def)

lemma emit_step:
  assumes w: "wellFormed inst1" and f: "digests inst1 iid = Some r"
    and s: "store inst1 r = Some acc"
  shows "wellFormed (updateDigest_emit inst1 r)"
    and "j \<noteq> iid \<Longrightarrow> accumulator (updateDigest_emit inst1 r) j = accumulator inst1 j"
    and "accumulator (updateDigest_emit inst1 r) iid =
           Some (if isDigestComplete acc
                 then acc\<lparr>numberOfInteractions := Deleted, isHandled := True\<rparr> else acc)"
    and "emittedKeys (updateDigest_emit inst1 r) =
           emittedKeys inst1 @
             (if isDigestComplete acc then [(instanceId acc, digestTimestamp acc)] else [])"
proof -
  have uniq: "i = iid" if "digests inst1 i = Some r" for i
    using wellFormed_filed [OF w that s] wellFormed_filed [OF w f s] by simp
  show "wellFormed (updateDigest_emit inst1 r)"
  proof (cases "isDigestComplete acc")
    case True
    show ?thesis
      unfolding emit_complete [OF s True] wellFormed_def
    proof (intro allI impI)
      fix i r'
      assume "digests (inst1\<lparr>store := (store inst1)
                 (r \<mapsto> acc\<lparr>numberOfInteractions := Deleted, isHandled := True\<rparr>),
               calls := calls inst1 @ [DigestCall r (acc\<lparr>numberOfInteractions := Deleted\<rparr>)]\<rparr>) i
              = Some r'"
      then have g: "digests inst1 i = Some r'" by simp
      from w g obtain d where d: "r' < nextRef inst1" "store inst1 r' = Some d" "instanceId d = i"
        unfolding wellFormed_def by blast
      show "r' < nextRef (inst1\<lparr>store := (store inst1)
                 (r \<mapsto> acc\<lparr>numberOfInteractions := Deleted, isHandled := True\<rparr>),
               calls := calls inst1 @ [DigestCall r (acc\<lparr>numberOfInteractions := Deleted\<rparr>)]\<rparr>)
            \<and> (\<exists>d. store (inst1\<lparr>store := (store inst1)
                 (r \<mapsto> acc\<lparr>numberOfInteractions := Deleted, isHandled := True\<rparr>),
               calls := calls inst1 @ [DigestCall r (acc\<lparr>numberOfInteractions := Deleted\<rparr>)]\<rparr>) r'
                   = Some d \<and> instanceId d = i)"
      proof (cases "r' = r")
        case True
        with g uniq have "i = iid" by simp
        with True d s show ?thesis by simp
      next
        case False
        with d show ?thesis by simp
      qed
    qed
  next
    case False
    show ?thesis unfolding emit_incomplete [OF s False] by (rule w)
  qed
  show "accumulator (updateDigest_emit inst1 r) j = accumulator inst1 j" if "j \<noteq> iid"
  proof (cases "isDigestComplete acc")
    case True
    have "digests inst1 j \<noteq> Some r" using uniq that by blast
    then show ?thesis
      unfolding emit_complete [OF s True]
      by (cases "digests inst1 j") (auto simp: accumulator_def)
  next
    case False
    show ?thesis unfolding emit_incomplete [OF s False] ..
  qed
  show "accumulator (updateDigest_emit inst1 r) iid =
           Some (if isDigestComplete acc
                 then acc\<lparr>numberOfInteractions := Deleted, isHandled := True\<rparr> else acc)"
  proof (cases "isDigestComplete acc")
    case True
    show ?thesis
      unfolding emit_complete [OF s True] using f True by (simp add: accumulator_def)
  next
    case False
    show ?thesis
      unfolding emit_incomplete [OF s False] using f s False by (simp add: accumulator_def)
  qed
  show "emittedKeys (updateDigest_emit inst1 r) =
           emittedKeys inst1 @
             (if isDigestComplete acc then [(instanceId acc, digestTimestamp acc)] else [])"
  proof (cases "isDigestComplete acc")
    case True
    show ?thesis
      unfolding emit_complete [OF s True] using True
      by (simp add: emittedKeys_def digestCalls_append)
  next
    case False
    show ?thesis
      unfolding emit_incomplete [OF s False] using False by simp
  qed
qed

lemma step_count:
  assumes wf: "wellFormed inst" and l: "locates inst iid dts loc"
    and r: "inst' = (case loc of None \<Rightarrow> inst | Some (inst1, r) \<Rightarrow> updateDigest_emit inst1 r)"
  shows "wellFormed inst'"
    and "currentEpoch inst' = (currentEpoch inst)(iid \<mapsto> dts)"
    and "count_list (emittedKeys inst') k + pending inst' k
           \<le> count_list (emittedKeys inst) k + pending inst k
              + (if k = (iid, dts) \<and> currentEpoch inst iid \<noteq> Some dts then 1 else 0)"
proof -
  have "wellFormed inst' \<and> currentEpoch inst' = (currentEpoch inst)(iid \<mapsto> dts)
        \<and> count_list (emittedKeys inst') k + pending inst' k
           \<le> count_list (emittedKeys inst) k + pending inst k
              + (if k = (iid, dts) \<and> currentEpoch inst iid \<noteq> Some dts then 1 else 0)"
  proof (cases loc)
    case None
    with r have same: "inst' = inst" by simp
    from l None obtain d where "accumulator inst iid = Some d" "digestTimestamp d = dts"
      unfolding locates_def by auto
    then have "currentEpoch inst iid = Some dts" by (simp add: currentEpoch_def)
    then have "(currentEpoch inst)(iid \<mapsto> dts) = currentEpoch inst"
      by (rule map_upd_triv)
    with wf show ?thesis unfolding same by simp
  next
    case (Some p)
    obtain inst1 ref where p: "p = (inst1, ref)" by (cases p)
    from r Some p have res: "inst' = updateDigest_emit inst1 ref" by simp
    from l Some p obtain acc where
      w1: "wellFormed inst1" and f: "digests inst1 iid = Some ref"
      and c: "calls inst1 = calls inst"
      and o: "\<And>j. j \<noteq> iid \<Longrightarrow> accumulator inst1 j = accumulator inst j"
      and s: "store inst1 ref = Some acc"
      and a: "instanceId acc = iid" "digestTimestamp acc = dts" "\<not> isHandled acc"
      and q: "currentEpoch inst iid = Some dts \<Longrightarrow> pending inst (iid, dts) = 1"
      unfolding locates_def by auto
    note e = emit_step [OF w1 f s]
    define after where
      "after = (if isDigestComplete acc
                then acc\<lparr>numberOfInteractions := Deleted, isHandled := True\<rparr> else acc)"
    have ai: "accumulator inst' iid = Some after"
      unfolding res after_def by (rule e(3))
    have ao: "accumulator inst' j = accumulator inst j" if "j \<noteq> iid" for j
      unfolding res using e(2) [OF that] o [OF that] by simp
    have at: "digestTimestamp after = dts"
      using a(2) by (simp add: after_def)
    have ah: "isHandled after = isDigestComplete acc"
      using a(3) by (simp add: after_def)
    have ek: "emittedKeys inst' =
                emittedKeys inst @ (if isDigestComplete acc then [(iid, dts)] else [])"
      unfolding res e(4) a emittedKeys_calls [OF c] ..
    have ep: "currentEpoch inst' = (currentEpoch inst)(iid \<mapsto> dts)"
    proof (rule ext)
      fix j
      show "currentEpoch inst' j = ((currentEpoch inst)(iid \<mapsto> dts)) j"
      proof (cases "j = iid")
        case True
        then show ?thesis by (simp add: currentEpoch_def ai at)
      next
        case False
        then show ?thesis by (simp add: currentEpoch_def ao)
      qed
    qed
    have cnt: "count_list (emittedKeys inst') k + pending inst' k
           \<le> count_list (emittedKeys inst) k + pending inst k
              + (if k = (iid, dts) \<and> currentEpoch inst iid \<noteq> Some dts then 1 else 0)"
    proof (cases "fst k = iid")
      case False
      then have "k \<noteq> (iid, dts)" by auto
      moreover have "pending inst' k = pending inst k"
        using False by (simp add: pending_def ao)
      ultimately show ?thesis by (simp add: ek)
    next
      case dev: True
      show ?thesis
      proof (cases "snd k = dts")
        case False
        then have ne: "k \<noteq> (iid, dts)" by auto
        have "pending inst' k = 0"
          using dev False by (simp add: pending_def ai at)
        with ne show ?thesis by (simp add: ek)
      next
        case True
        with dev have k: "k = (iid, dts)" by (cases k) simp
        have one: "count_list (if isDigestComplete acc then [(iid, dts)] else []) k
                     + pending inst' k = 1"
          unfolding k by (simp add: pending_def ai at ah)
        have "1 \<le> pending inst k
                   + (if k = (iid, dts) \<and> currentEpoch inst iid \<noteq> Some dts then 1 else 0)"
          using q by (simp add: k)
        with one show ?thesis by (simp add: ek)
      qed
    qed
    from e(1) ep cnt show ?thesis unfolding res by simp
  qed
  then show "wellFormed inst'"
    and "currentEpoch inst' = (currentEpoch inst)(iid \<mapsto> dts)"
    and "count_list (emittedKeys inst') k + pending inst' k
           \<le> count_list (emittedKeys inst) k + pending inst k
              + (if k = (iid, dts) \<and> currentEpoch inst iid \<noteq> Some dts then 1 else 0)"
    by simp_all
qed

lemma updateDigest_step:
  assumes "wellFormed inst"
  shows "wellFormed (updateDigest inst iid dts isLastPage pageNumber page ts)"
    and "currentEpoch (updateDigest inst iid dts isLastPage pageNumber page ts)
           = (currentEpoch inst)(iid \<mapsto> dts)"
    and "count_list (emittedKeys (updateDigest inst iid dts isLastPage pageNumber page ts)) k
           + pending (updateDigest inst iid dts isLastPage pageNumber page ts) k
         \<le> count_list (emittedKeys inst) k + pending inst k
            + (if k = (iid, dts) \<and> currentEpoch inst iid \<noteq> Some dts then 1 else 0)"
proof -
  note l = locates_second [OF assms, of iid dts isLastPage pageNumber page ts]
  have r: "updateDigest inst iid dts isLastPage pageNumber page ts =
             (case updateDigest_locate inst iid dts isLastPage pageNumber page ts of
                None \<Rightarrow> inst
              | Some (inst1, r) \<Rightarrow> updateDigest_emit inst1 r)"
    by (simp add: updateDigest_def)
  show "wellFormed (updateDigest inst iid dts isLastPage pageNumber page ts)"
    by (rule step_count(1) [OF assms l r])
  show "currentEpoch (updateDigest inst iid dts isLastPage pageNumber page ts)
           = (currentEpoch inst)(iid \<mapsto> dts)"
    by (rule step_count(2) [OF assms l r])
  show "count_list (emittedKeys (updateDigest inst iid dts isLastPage pageNumber page ts)) k
           + pending (updateDigest inst iid dts isLastPage pageNumber page ts) k
         \<le> count_list (emittedKeys inst) k + pending inst k
            + (if k = (iid, dts) \<and> currentEpoch inst iid \<noteq> Some dts then 1 else 0)"
    by (rule step_count(3) [OF assms l r])
qed

lemma updateDigest_lib_step:
  assumes "wellFormed inst"
  shows "wellFormed (updateDigest_lib inst iid dts isLastPage pageNumber page)"
    and "currentEpoch (updateDigest_lib inst iid dts isLastPage pageNumber page)
           = (currentEpoch inst)(iid \<mapsto> dts)"
    and "count_list (emittedKeys (updateDigest_lib inst iid dts isLastPage pageNumber page)) k
           + pending (updateDigest_lib inst iid dts isLastPage pageNumber page) k
         \<le> count_list (emittedKeys inst) k + pending inst k
            + (if k = (iid, dts) \<and> currentEpoch inst iid \<noteq> Some dts then 1 else 0)"
proof -
  note l = locates_lib [OF assms, of iid dts isLastPage pageNumber page]
  have r: "updateDigest_lib inst iid dts isLastPage pageNumber page =
             (case updateDigest_locate_lib inst iid dts isLastPage pageNumber page of
                None \<Rightarrow> inst
              | Some (inst1, r) \<Rightarrow> updateDigest_emit inst1 r)"
    by (simp add: updateDigest_lib_def)
  show "wellFormed (updateDigest_lib inst iid dts isLastPage pageNumber page)"
    by (rule step_count(1) [OF assms l r])
  show "currentEpoch (updateDigest_lib inst iid dts isLastPage pageNumber page)
           = (currentEpoch inst)(iid \<mapsto> dts)"
    by (rule step_count(2) [OF assms l r])
  show "count_list (emittedKeys (updateDigest_lib inst iid dts isLastPage pageNumber page)) k
           + pending (updateDigest_lib inst iid dts isLastPage pageNumber page) k
         \<le> count_list (emittedKeys inst) k + pending inst k
            + (if k = (iid, dts) \<and> currentEpoch inst iid \<noteq> Some dts then 1 else 0)"
    by (rule step_count(3) [OF assms l r])
qed

lemma epochStarts_Cons:
  "count_list (epochStarts cur ((iid, dts) # ks)) k =
     (if k = (iid, dts) \<and> cur iid \<noteq> Some dts then 1 else 0)
     + count_list (epochStarts (cur(iid \<mapsto> dts)) ks) k"
  by auto

lemma feedPages_count:
  assumes "wellFormed inst"
  shows "count_list (emittedKeys (feedPages inst pages)) k
         \<le> count_list (emittedKeys inst) k + pending inst k
            + count_list (epochStarts (currentEpoch inst) (map (pageKey \<circ> fst) pages)) k"
  using assms
proof (induction pages arbitrary: inst)
  case Nil
  then show ?case by simp
next
  case (Cons pt pages)
  obtain p ts where pt: "pt = (p, ts)" by (cases pt)
  define inst' where
    "inst' = updateDigest inst (pgInstanceId p) (pgDigestTimestamp p) (pgIsLastPage p)
               (pgPageNumber p) (pgEntries p) ts"
  note st = updateDigest_step [OF Cons.prems, where iid = "pgInstanceId p"
              and dts = "pgDigestTimestamp p" and isLastPage = "pgIsLastPage p"
              and pageNumber = "pgPageNumber p" and page = "pgEntries p" and ts = ts,
              folded inst'_def]
  have ih: "count_list (emittedKeys (feedPages inst' pages)) k
         \<le> count_list (emittedKeys inst') k + pending inst' k
            + count_list (epochStarts ((currentEpoch inst)(pgInstanceId p \<mapsto> pgDigestTimestamp p))
                (map (pageKey \<circ> fst) pages)) k"
    using Cons.IH [OF st(1)] unfolding st(2) .
  have f: "feedPages inst (pt # pages) = feedPages inst' pages"
    by (simp add: pt inst'_def)
  have m: "map (pageKey \<circ> fst) (pt # pages)
             = (pgInstanceId p, pgDigestTimestamp p) # map (pageKey \<circ> fst) pages"
    by (simp add: pt pageKey_def)
  show ?case
    unfolding f m epochStarts_Cons using ih st(3) [of k] by linarith
qed

lemma feedPages_lib_count:
  assumes "wellFormed inst"
  shows "count_list (emittedKeys (feedPages_lib inst pages)) k
         \<le> count_list (emittedKeys inst) k + pending inst k
            + count_list (epochStarts (currentEpoch inst) (map pageKey pages)) k"
  using assms
proof (induction pages arbitrary: inst)
  case Nil
  then show ?case by simp
next
  case (Cons p pages)
  define inst' where
    "inst' = updateDigest_lib inst (pgInstanceId p) (pgDigestTimestamp p) (pgIsLastPage p)
               (pgPageNumber p) (pgEntries p)"
  note st = updateDigest_lib_step [OF Cons.prems, where iid = "pgInstanceId p"
              and dts = "pgDigestTimestamp p" and isLastPage = "pgIsLastPage p"
              and pageNumber = "pgPageNumber p" and page = "pgEntries p",
              folded inst'_def]
  have ih: "count_list (emittedKeys (feedPages_lib inst' pages)) k
         \<le> count_list (emittedKeys inst') k + pending inst' k
            + count_list (epochStarts ((currentEpoch inst)(pgInstanceId p \<mapsto> pgDigestTimestamp p))
                (map pageKey pages)) k"
    using Cons.IH [OF st(1)] unfolding st(2) .
  have f: "feedPages_lib inst (p # pages) = feedPages_lib inst' pages"
    by (simp add: inst'_def)
  have m: "map pageKey (p # pages)
             = (pgInstanceId p, pgDigestTimestamp p) # map pageKey pages"
    by (simp add: pageKey_def)
  show ?case
    unfolding f m epochStarts_Cons using ih st(3) [of k] by linarith
qed

lemma feedPages_wellFormed:
  "wellFormed inst \<Longrightarrow> wellFormed (feedPages inst pages)"
proof (induction pages arbitrary: inst)
  case Nil
  then show ?case by simp
next
  case (Cons pt pages)
  obtain p ts where pt: "pt = (p, ts)" by (cases pt)
  show ?case
    unfolding pt feedPages.simps
    by (rule Cons.IH) (rule updateDigest_step(1) [OF Cons.prems])
qed

lemma feedPages_lib_wellFormed:
  "wellFormed inst \<Longrightarrow> wellFormed (feedPages_lib inst pages)"
proof (induction pages arbitrary: inst)
  case Nil
  then show ?case by simp
next
  case (Cons p pages)
  show ?case
    unfolding feedPages_lib.simps
    by (rule Cons.IH) (rule updateDigest_lib_step(1) [OF Cons.prems])
qed

lemma new_digester_facts:
  "emittedKeys (newDigester proximityHandler digestHandler) = []"
  "pending (newDigester proximityHandler digestHandler) k = 0"
  "currentEpoch (newDigester proximityHandler digestHandler) = Map.empty"
  by (simp_all add: emittedKeys_def pending_def currentEpoch_def accumulator_def
      newDigester_def fun_eq_iff)

text \<open>Pages of one device that all carry one epoch start that epoch at most once.\<close>

lemma epochStarts_one_epoch:
  assumes "\<forall>key \<in> set ks. fst key = iid \<longrightarrow> snd key = dts"
  shows "count_list (epochStarts cur ks) (iid, dts) \<le> (if cur iid = Some dts then 0 else 1)"
  using assms
proof (induction ks arbitrary: cur)
  case Nil
  then show ?case by simp
next
  case (Cons key ks)
  obtain i t where key: "key = (i, t)" by (cases key)
  from Cons.prems have rest: "\<forall>key \<in> set ks. fst key = iid \<longrightarrow> snd key = dts" by simp
  show ?case
  proof (cases "i = iid")
    case True
    with Cons.prems key have t: "t = dts" by simp
    have "count_list (epochStarts (cur(iid \<mapsto> dts)) ks) (iid, dts)
            \<le> (if (cur(iid \<mapsto> dts)) iid = Some dts then 0 else 1)"
      by (rule Cons.IH [OF rest])
    also have "\<dots> = 0" by simp
    finally have z: "count_list (epochStarts (cur(iid \<mapsto> dts)) ks) (iid, dts) = 0"
      by simp
    show ?thesis unfolding key True t epochStarts_Cons z by simp
  next
    case False
    have "count_list (epochStarts (cur(i \<mapsto> t)) ks) (iid, dts)
            \<le> (if (cur(i \<mapsto> t)) iid = Some dts then 0 else 1)"
      by (rule Cons.IH [OF rest])
    also have "\<dots> = (if cur iid = Some dts then 0 else 1)"
      using False by simp
    finally have z: "count_list (epochStarts (cur(i \<mapsto> t)) ks) (iid, dts)
                       \<le> (if cur iid = Some dts then 0 else 1)" .
    have n: "(iid, dts) \<noteq> (i, t)" using False by simp
    show ?thesis unfolding key epochStarts_Cons using z n False by auto
  qed
qed

section \<open>Invocations of the digest handler\<close>

text \<open>
  Claim C1 says that the handler is invoked at most once per pair of instanceId and
  digestTimestamp, and never for an epoch that was superseded. The digester keeps one
  accumulator per device and nothing of the epochs before: a complete page of epoch 1,
  a page of epoch 2 and the page of epoch 1 again yield two invocations for epoch 1, in
  both files; and after an incomplete epoch 1 was superseded by epoch 2, a late page
  of epoch 1 that is complete by itself does trigger the handler for epoch 1.
\<close>

theorem digest_ready_twice_counterexample:
  "emittedKeys (feedPages (newDigester False True)
      [(singlePageEpoch1, 0), (pageEpoch2, 1), (singlePageEpoch1, 2)])
     = [(''01234567'', 1), (''01234567'', 1)]
   \<and> emittedKeys (feedPages_lib (newDigester False True)
      [singlePageEpoch1, pageEpoch2, singlePageEpoch1])
     = [(''01234567'', 1), (''01234567'', 1)]
   \<and> emittedKeys (feedPages (newDigester False True)
      [(pageZero, 0), (pageEpoch2, 1), (singlePageEpoch1, 2)])
     = [(''01234567'', 1)]"
proof -
  have a: "emittedKeys (feedPages (newDigester False True)
      [(singlePageEpoch1, 0), (pageEpoch2, 1), (singlePageEpoch1, 2)])
     = [(''01234567'', 1), (''01234567'', 1)]"
    by (simp add: singlePageEpoch1_def pageEpoch2_def emittedKeys_def reassembler_defs Let_def)
  have b: "emittedKeys (feedPages_lib (newDigester False True)
      [singlePageEpoch1, pageEpoch2, singlePageEpoch1])
     = [(''01234567'', 1), (''01234567'', 1)]"
    by (simp add: singlePageEpoch1_def pageEpoch2_def emittedKeys_def reassembler_lib_defs
        Let_def)
  have c: "emittedKeys (feedPages (newDigester False True)
      [(pageZero, 0), (pageEpoch2, 1), (singlePageEpoch1, 2)])
     = [(''01234567'', 1)]"
    by (simp add: singlePageEpoch1_def pageEpoch2_def pageZero_def emittedKeys_def
        reassembler_defs Let_def eval_nat_numeral)
  from a b c show ?thesis by simp
qed

text \<open>
  Claim C1, amended. For every sequence of pages fed to a new digester with a digest
  handler, in either file, the handler is invoked for a pair of instanceId and
  digestTimestamp at most as many times as that epoch is started for the device, that
  is as many times as a page with that stamp arrives while the device has no
  accumulator or one of another epoch. In particular the handler is invoked at most
  once for the pair when all pages of the device carry that digestTimestamp.
\<close>

theorem digest_ready_once_per_epoch_start:
  "count_list (emittedKeys (feedPages (newDigester proximityHandler True) pages)) (iid, dts)
     \<le> count_list (epochStarts Map.empty (map (pageKey \<circ> fst) pages)) (iid, dts)
   \<and> count_list (emittedKeys (feedPages_lib (newDigester proximityHandler True) pagesLib)) (iid, dts)
     \<le> count_list (epochStarts Map.empty (map pageKey pagesLib)) (iid, dts)
   \<and> ((\<forall>p \<in> set pages. pgInstanceId (fst p) = iid \<longrightarrow> pgDigestTimestamp (fst p) = dts)
       \<longrightarrow> count_list (emittedKeys (feedPages (newDigester proximityHandler True) pages))
             (iid, dts) \<le> 1)
   \<and> ((\<forall>p \<in> set pagesLib. pgInstanceId p = iid \<longrightarrow> pgDigestTimestamp p = dts)
       \<longrightarrow> count_list (emittedKeys (feedPages_lib (newDigester proximityHandler True) pagesLib))
             (iid, dts) \<le> 1)"
proof -
  have a: "count_list (emittedKeys (feedPages (newDigester proximityHandler True) pages)) (iid, dts)
     \<le> count_list (epochStarts Map.empty (map (pageKey \<circ> fst) pages)) (iid, dts)"
    using feedPages_count [OF wellFormed_new, of proximityHandler True pages "(iid, dts)"]
    by (simp add: new_digester_facts)
  have b: "count_list (emittedKeys (feedPages_lib (newDigester proximityHandler True) pagesLib))
             (iid, dts)
     \<le> count_list (epochStarts Map.empty (map pageKey pagesLib)) (iid, dts)"
    using feedPages_lib_count [OF wellFormed_new, of proximityHandler True pagesLib "(iid, dts)"]
    by (simp add: new_digester_facts)
  have c: "count_list (emittedKeys (feedPages (newDigester proximityHandler True) pages))
             (iid, dts) \<le> 1"
    if "\<forall>p \<in> set pages. pgInstanceId (fst p) = iid \<longrightarrow> pgDigestTimestamp (fst p) = dts"
  proof -
    from that have "\<forall>key \<in> set (map (pageKey \<circ> fst) pages). fst key = iid \<longrightarrow> snd key = dts"
      by (auto simp: pageKey_def)
    from epochStarts_one_epoch [OF this, of Map.empty] a show ?thesis by simp
  qed
  have d: "count_list (emittedKeys (feedPages_lib (newDigester proximityHandler True) pagesLib))
             (iid, dts) \<le> 1"
    if "\<forall>p \<in> set pagesLib. pgInstanceId p = iid \<longrightarrow> pgDigestTimestamp p = dts"
  proof -
    from that have "\<forall>key \<in> set (map pageKey pagesLib). fst key = iid \<longrightarrow> snd key = dts"
      by (auto simp: pageKey_def)
    from epochStarts_one_epoch [OF this, of Map.empty] b show ?thesis by simp
  qed
  from a b c d show ?thesis by blast
qed

theorem digest_ready_once_per_epoch_start_witness:
  "count_list (emittedKeys (feedPages (newDigester False True)
       [(singlePageEpoch1, 0), (singlePageEpoch1, 1)])) (''01234567'', 1) \<le> 1
   \<and> emittedKeys (feedPages (newDigester False True)
       [(singlePageEpoch1, 0), (singlePageEpoch1, 1)]) = [(''01234567'', 1)]
   \<and> count_list (emittedKeys (feedPages_lib (newDigester False True)
       [singlePageEpoch1, singlePageEpoch1])) (''01234567'', 1) \<le> 1"
proof -
  have h: "\<forall>p \<in> set [(singlePageEpoch1, 0::int), (singlePageEpoch1, 1)].
             pgInstanceId (fst p) = ''01234567'' \<longrightarrow> pgDigestTimestamp (fst p) = 1"
    by (simp add: singlePageEpoch1_def)
  have g: "\<forall>p \<in> set [singlePageEpoch1, singlePageEpoch1].
             pgInstanceId p = ''01234567'' \<longrightarrow> pgDigestTimestamp p = 1"
    by (simp add: singlePageEpoch1_def)
  have e: "emittedKeys (feedPages (newDigester False True)
       [(singlePageEpoch1, 0), (singlePageEpoch1, 1)]) = [(''01234567'', 1)]"
    by (simp add: singlePageEpoch1_def emittedKeys_def reassembler_defs Let_def)
  from digest_ready_once_per_epoch_start
         [of False "[(singlePageEpoch1, 0), (singlePageEpoch1, 1)]" "''01234567''" 1
             "[singlePageEpoch1, singlePageEpoch1]"] h g e
  show ?thesis by blast
qed

section \<open>Reading an array with holes\<close>

lemma entryAt_Nil: "entryAt [] i = None"
  by (simp add: entryAt_def)

lemma entryAt_Cons_0: "entryAt (x # xs) 0 = x"
  by (simp add: entryAt_def)

lemma entryAt_Cons_Suc: "entryAt (x # xs) (Suc i) = entryAt xs i"
  by (simp add: entryAt_def)

lemmas entryAt_simps = entryAt_Nil entryAt_Cons_0 entryAt_Cons_Suc

lemma populated_entryAt: "populated arr i = (entryAt arr i \<noteq> None)"
  by (simp add: populated_def entryAt_def)

lemma entryAt_setIndex: "entryAt (setIndex arr i v) j = (if j = i then Some v else entryAt arr j)"
proof (induction arr i v arbitrary: j rule: setIndex.induct)
  case (1 v)
  then show ?case by (cases j) (simp_all add: entryAt_simps)
next
  case (2 i v)
  then show ?case by (cases j) (simp_all add: entryAt_simps)
next
  case (3 x xs v)
  then show ?case by (cases j) (simp_all add: entryAt_simps)
next
  case (4 x xs i v)
  then show ?case by (cases j) (simp_all add: entryAt_simps)
qed

lemma entryAt_writePage:
  "entryAt (writePage arr offset es) j =
     (if offset \<le> j \<and> j < offset + length es then Some (es ! (j - offset))
      else entryAt arr j)"
proof (induction es arbitrary: arr offset)
  case Nil
  then show ?case by auto
next
  case (Cons e es)
  have ih: "entryAt (writePage (setIndex arr offset e) (Suc offset) es) j =
     (if Suc offset \<le> j \<and> j < Suc offset + length es then Some (es ! (j - Suc offset))
      else entryAt (setIndex arr offset e) j)"
    by (rule Cons.IH)
  show ?case
    unfolding writePage.simps ih entryAt_setIndex
    by (auto simp: nth_Cons')
qed

lemma entryAt_addDigestPage:
  "entryAt (interactions (addDigestPage d isLastPage pageNumber page)) j =
     (if pageNumber * 3 \<le> j \<and> j < pageNumber * 3 + length page
      then Some (page ! (j - pageNumber * 3))
      else entryAt (interactions d) j)"
  by (simp add: addDigestPage_fields entryAt_writePage)

section \<open>One page, exactly\<close>

lemma accumulator_filed:
  assumes "wellFormed inst" and "accumulator inst iid = Some d"
  shows "instanceId d = iid"
proof -
  from assms(2) obtain r where "digests inst iid = Some r" "store inst r = Some d"
    by (auto simp: accumulator_def split: option.splits)
  then show ?thesis by (rule wellFormed_filed [OF assms(1)])
qed

lemma baseDigest_cases:
  obtains (blank) "baseDigest inst iid dts ts = blankDigest iid dts ts"
      "currentEpoch inst iid \<noteq> Some dts"
    | (held) "accumulator inst iid = Some (baseDigest inst iid dts ts)"
      "digestTimestamp (baseDigest inst iid dts ts) = dts"
  by (cases "accumulator inst iid")
    (auto simp: baseDigest_def currentEpoch_def)

lemma baseDigest_key:
  assumes "wellFormed inst"
  shows "instanceId (baseDigest inst iid dts ts) = iid"
    and "digestTimestamp (baseDigest inst iid dts ts) = dts"
proof -
  show "instanceId (baseDigest inst iid dts ts) = iid"
  proof (cases rule: baseDigest_cases [of inst iid dts ts])
    case blank
    then show ?thesis by (simp add: blankDigest_def)
  next
    case held
    then show ?thesis using accumulator_filed [OF assms] by simp
  qed
  show "digestTimestamp (baseDigest inst iid dts ts) = dts"
    by (cases rule: baseDigest_cases [of inst iid dts ts]) (simp_all add: blankDigest_def)
qed

lemma updateDigest_absorbed:
  assumes "wellFormed inst" and "isHandled (baseDigest inst iid dts ts)"
  shows "updateDigest inst iid dts isLastPage pageNumber page ts = inst"
proof (cases rule: baseDigest_cases [of inst iid dts ts])
  case blank
  with assms(2) show ?thesis by (simp add: blankDigest_def)
next
  case held
  from held(1) obtain r where r: "digests inst iid = Some r"
    "store inst r = Some (baseDigest inst iid dts ts)"
    by (auto simp: accumulator_def split: option.splits)
  show ?thesis by (rule updateDigest_handled(1) [OF r assms(2) held(2)])
qed

lemma locate_exact:
  assumes wf: "wellFormed inst" and nh: "\<not> isHandled (baseDigest inst iid dts ts)"
  shows "\<exists>inst1 r. updateDigest_locate inst iid dts isLastPage pageNumber page ts = Some (inst1, r)
           \<and> store inst1 r
               = Some (addDigestPage (baseDigest inst iid dts ts) isLastPage pageNumber page)"
proof (cases "digests inst iid")
  case None
  then have "baseDigest inst iid dts ts = blankDigest iid dts ts"
    by (simp add: baseDigest_def accumulator_def)
  with None show ?thesis
    by (simp add: updateDigest_locate_def allocDigest_def createDigest_blank)
next
  case (Some r)
  with wf obtain d where d: "store inst r = Some d"
    by (auto simp: wellFormed_def)
  have acc: "accumulator inst iid = Some d"
    using Some d by (simp add: accumulator_def)
  show ?thesis
  proof (cases "digestTimestamp d \<noteq> dts")
    case True
    then have "baseDigest inst iid dts ts = blankDigest iid dts ts"
      by (simp add: baseDigest_def acc)
    with Some d True show ?thesis
      by (simp add: updateDigest_locate_def allocDigest_def createDigest_blank)
  next
    case False
    then have b: "baseDigest inst iid dts ts = d"
      by (simp add: baseDigest_def acc)
    with nh have "\<not> isHandled d" by simp
    with Some d False b show ?thesis
      by (simp add: updateDigest_locate_def)
  qed
qed

lemma updateDigest_exact:
  fixes isLastPage :: bool and pageNumber :: nat and page :: "entry list"
  assumes wf: "wellFormed inst" and nh: "\<not> isHandled (baseDigest inst iid dts ts)"
  defines "acc \<equiv> addDigestPage (baseDigest inst iid dts ts) isLastPage pageNumber page"
  defines "inst' \<equiv> updateDigest inst iid dts isLastPage pageNumber page ts"
  shows "wellFormed inst'"
    and "\<And>j. j \<noteq> iid \<Longrightarrow> accumulator inst' j = accumulator inst j"
    and "accumulator inst' iid =
           Some (if isDigestComplete acc
                 then acc\<lparr>numberOfInteractions := Deleted, isHandled := True\<rparr> else acc)"
    and "\<exists>r. digestCalls (calls inst') =
           digestCalls (calls inst) @
             (if isDigestComplete acc then [(r, acc\<lparr>numberOfInteractions := Deleted\<rparr>)] else [])"
proof -
  from locate_exact [OF wf nh, of isLastPage pageNumber page] obtain inst1 r where
    l: "updateDigest_locate inst iid dts isLastPage pageNumber page ts = Some (inst1, r)"
    and s: "store inst1 r = Some acc"
    unfolding acc_def by blast
  have u: "inst' = updateDigest_emit inst1 r"
    unfolding inst'_def by (simp add: updateDigest_def l)
  from locates_second [OF wf, of iid dts isLastPage pageNumber page ts] have
    w1: "wellFormed inst1" and f: "digests inst1 iid = Some r"
    and c: "calls inst1 = calls inst"
    and o: "\<And>j. j \<noteq> iid \<Longrightarrow> accumulator inst1 j = accumulator inst j"
    unfolding l locates_def by auto
  note e = emit_step [OF w1 f s]
  show "wellFormed inst'" unfolding u by (rule e(1))
  show "accumulator inst' j = accumulator inst j" if "j \<noteq> iid" for j
    unfolding u using e(2) [OF that] o [OF that] by simp
  show "accumulator inst' iid =
           Some (if isDigestComplete acc
                 then acc\<lparr>numberOfInteractions := Deleted, isHandled := True\<rparr> else acc)"
    unfolding u by (rule e(3))
  show "\<exists>r. digestCalls (calls inst') =
           digestCalls (calls inst) @
             (if isDigestComplete acc then [(r, acc\<lparr>numberOfInteractions := Deleted\<rparr>)] else [])"
  proof (cases "isDigestComplete acc")
    case True
    have "digestCalls (calls inst') =
            digestCalls (calls inst) @ [(r, acc\<lparr>numberOfInteractions := Deleted\<rparr>)]"
      unfolding u emit_complete [OF s True] by (simp add: digestCalls_append c)
    with True show ?thesis by auto
  next
    case False
    have "digestCalls (calls inst') = digestCalls (calls inst)"
      unfolding u emit_incomplete [OF s False] by (simp add: c)
    with False show ?thesis by simp
  qed
qed

section \<open>Where the entries of an emitted digest come from\<close>

lemma sourced_blank: "sourced S (blankDigest iid dts ts)"
  by (simp add: sourced_def blankDigest_def populated_def)

lemma sourced_add:
  assumes d: "sourced S d" and p: "p \<in> S"
    and k: "pageKey p = (instanceId d, digestTimestamp d)"
  shows "sourced S (addDigestPage d (pgIsLastPage p) (pgPageNumber p) (pgEntries p))"
  unfolding sourced_def
proof (intro conjI allI impI)
  let ?acc = "addDigestPage d (pgIsLastPage p) (pgPageNumber p) (pgEntries p)"
  have key: "(instanceId ?acc, digestTimestamp ?acc) = (instanceId d, digestTimestamp d)"
    by (simp add: addDigestPage_fields)
  fix i
  assume pop: "populated (interactions ?acc) i"
  show "\<exists>q \<in> S. \<exists>j < length (pgEntries q).
          pageKey q = (instanceId ?acc, digestTimestamp ?acc)
          \<and> i = pgPageNumber q * 3 + j
          \<and> entryAt (interactions ?acc) i = Some (pgEntries q ! j)"
  proof (cases "pgPageNumber p * 3 \<le> i \<and> i < pgPageNumber p * 3 + length (pgEntries p)")
    case True
    then have j: "i - pgPageNumber p * 3 < length (pgEntries p)"
      "i = pgPageNumber p * 3 + (i - pgPageNumber p * 3)"
      by auto
    have "entryAt (interactions ?acc) i = Some (pgEntries p ! (i - pgPageNumber p * 3))"
      using True by (simp add: entryAt_addDigestPage)
    with p k j show ?thesis unfolding key by blast
  next
    case False
    with pop have old: "populated (interactions d) i"
      by (simp add: populated_addDigestPage)
    have same: "entryAt (interactions ?acc) i = entryAt (interactions d) i"
      unfolding entryAt_addDigestPage using False by auto
    from d old show ?thesis unfolding sourced_def key same by blast
  qed
next
  let ?acc = "addDigestPage d (pgIsLastPage p) (pgPageNumber p) (pgEntries p)"
  have key: "(instanceId ?acc, digestTimestamp ?acc) = (instanceId d, digestTimestamp d)"
    by (simp add: addDigestPage_fields)
  fix n
  assume n: "numberOfInteractions ?acc = Number n"
  show "\<exists>q \<in> S. pageKey q = (instanceId ?acc, digestTimestamp ?acc)
          \<and> pgIsLastPage q \<and> expectedOfPage q = n"
  proof (cases "pgIsLastPage p")
    case True
    with n have "expectedOfPage p = n"
      by (simp add: addDigestPage_fields expectedOfPage_def)
    with p k True show ?thesis unfolding key by blast
  next
    case False
    with n have "numberOfInteractions d = Number n"
      by (simp add: addDigestPage_fields)
    with d show ?thesis unfolding sourced_def key by blast
  qed
qed

lemma sourced_handled:
  assumes "sourced S acc"
  shows "sourced S (acc\<lparr>numberOfInteractions := Deleted, isHandled := True\<rparr>)"
  using assms by (simp add: sourced_def)

lemma emittedFrom_complete:
  assumes s: "sourced S acc" and c: "isDigestComplete acc"
  shows "emittedFrom S (acc\<lparr>numberOfInteractions := Deleted\<rparr>)"
proof -
  from c obtain n where
    n: "numberOfInteractions acc = Number n" "card {i. populated (interactions acc) i} = n"
    unfolding isDigestComplete_iff by blast
  from s n(1) obtain p where "p \<in> S" "pageKey p = (instanceId acc, digestTimestamp acc)"
    "pgIsLastPage p" "expectedOfPage p = n"
    unfolding sourced_def by blast
  with s n(2) show ?thesis
    unfolding emittedFrom_def sourced_def by auto
qed

lemma reassembled_new: "reassembled S (newDigester proximityHandler digestHandler)"
  by (simp add: reassembled_def wellFormed_new)
    (simp add: accumulator_def newDigester_def)

lemma reassembled_step:
  assumes r: "reassembled S inst" and p: "p \<in> S"
  shows "reassembled S (updateDigest inst (pgInstanceId p) (pgDigestTimestamp p)
           (pgIsLastPage p) (pgPageNumber p) (pgEntries p) ts)"
proof -
  define iid where "iid = pgInstanceId p"
  define dts where "dts = pgDigestTimestamp p"
  define b where "b = baseDigest inst iid dts ts"
  define acc where "acc = addDigestPage b (pgIsLastPage p) (pgPageNumber p) (pgEntries p)"
  define inst' where
    "inst' = updateDigest inst iid dts (pgIsLastPage p) (pgPageNumber p) (pgEntries p) ts"
  from r have wf: "wellFormed inst"
    and accs: "\<And>j d. accumulator inst j = Some d \<Longrightarrow> sourced S d"
    and old: "\<And>c. c \<in> set (digestCalls (calls inst)) \<Longrightarrow> emittedFrom S (snd c)"
    unfolding reassembled_def by auto
  have "reassembled S inst'"
  proof (cases "isHandled b")
    case True
    then have "inst' = inst"
      unfolding inst'_def b_def by (rule updateDigest_absorbed [OF wf])
    with r show ?thesis by simp
  next
    case False
    note e = updateDigest_exact [OF wf False [unfolded b_def],
        where isLastPage = "pgIsLastPage p" and pageNumber = "pgPageNumber p"
          and page = "pgEntries p",
        folded b_def, folded acc_def, folded inst'_def]
    have sb: "sourced S b"
    proof (cases rule: baseDigest_cases [of inst iid dts ts])
      case blank
      then show ?thesis unfolding b_def by (simp add: sourced_blank)
    next
      case held
      then show ?thesis unfolding b_def by (intro accs)
    qed
    have kb: "pageKey p = (instanceId b, digestTimestamp b)"
      unfolding b_def baseDigest_key [OF wf] by (simp add: pageKey_def iid_def dts_def)
    have sa: "sourced S acc"
      unfolding acc_def by (rule sourced_add [OF sb p kb])
    have a1: "sourced S d" if "accumulator inst' j = Some d" for j d
    proof (cases "j = iid")
      case True
      with that e(3) have "d = (if isDigestComplete acc
                 then acc\<lparr>numberOfInteractions := Deleted, isHandled := True\<rparr> else acc)"
        by simp
      then show ?thesis using sa sourced_handled [OF sa] by simp
    next
      case False
      with that e(2) [OF False] show ?thesis by (auto intro: accs)
    qed
    from e(4) obtain ref where
      dc: "digestCalls (calls inst') = digestCalls (calls inst) @
            (if isDigestComplete acc then [(ref, acc\<lparr>numberOfInteractions := Deleted\<rparr>)] else [])"
      by blast
    have a2: "emittedFrom S (snd c)" if "c \<in> set (digestCalls (calls inst'))" for c
    proof (cases "c \<in> set (digestCalls (calls inst))")
      case True
      then show ?thesis by (rule old)
    next
      case False
      with that dc have "isDigestComplete acc" "c = (ref, acc\<lparr>numberOfInteractions := Deleted\<rparr>)"
        by (auto split: if_splits)
      then show ?thesis using emittedFrom_complete [OF sa] by simp
    qed
    from e(1) a1 a2 show ?thesis unfolding reassembled_def by blast
  qed
  then show ?thesis unfolding inst'_def iid_def dts_def .
qed

lemma reassembled_feed:
  assumes "reassembled S inst" and "fst ` set pages \<subseteq> S"
  shows "reassembled S (feedPages inst pages)"
  using assms
proof (induction pages arbitrary: inst)
  case Nil
  then show ?case by simp
next
  case (Cons pt pages)
  obtain p ts where pt: "pt = (p, ts)" by (cases pt)
  from Cons.prems(2) have p: "p \<in> S" and rest: "fst ` set pages \<subseteq> S"
    by (auto simp: pt)
  show ?case
    unfolding pt feedPages.simps
    by (rule Cons.IH [OF reassembled_step [OF Cons.prems(1) p] rest])
qed

section \<open>What an emitted digest holds\<close>

text \<open>
  Claim C5 says that an emitted digest has no holes, also for pages that do not match
  a well-formed pagination. A page 1 flagged last with one entry announces four
  entries; a page 2 with three entries then brings the number of populated indices to
  four, and the digest is emitted with holes at 0, 1, 2, 4 and 5 and entries at 6, 7, 8.
\<close>

theorem emitted_digest_with_holes_counterexample:
  "digestCalls (calls (feedPages (newDigester False True) [(lastPageFour, 0), (pageTwo, 0)])) =
     [(0, \<lparr>instanceId = ''01234567'', digestTimestamp = 1, numberOfInteractions = Deleted,
           interactions = [None, None, None, Some (Entry ''0ddddddd'' (Some 4)), None, None,
                           Some (Entry ''0aaaaaaa'' (Some 1)), Some (Entry ''0bbbbbbb'' (Some 2)),
                           Some (Entry ''0ccccccc'' (Some 3))],
           timestamp = Some 0, isHandled = False\<rparr>)]
   \<and> expectedOfPage lastPageFour = 4
   \<and> \<not> populated [None, None, None, Some (Entry ''0ddddddd'' (Some 4)), None, None,
                    Some (Entry ''0aaaaaaa'' (Some 1)), Some (Entry ''0bbbbbbb'' (Some 2)),
                    Some (Entry ''0ccccccc'' (Some 3))] 0
   \<and> populated [None, None, None, Some (Entry ''0ddddddd'' (Some 4)), None, None,
                    Some (Entry ''0aaaaaaa'' (Some 1)), Some (Entry ''0bbbbbbb'' (Some 2)),
                    Some (Entry ''0ccccccc'' (Some 3))] 6"
  by (simp add: lastPageFour_def pageTwo_def expectedOfPage_def populated_def
      reassembler_defs eval_nat_numeral)

text \<open>
  Claim C5, amended. For every sequence of pages fed to a new digester of the second
  file and every digest handed to the handler: the number of its populated indices
  is the count that a last page of its device and epoch announces; every populated
  index \<open>i\<close> holds the entry that a page of its device and epoch carries at local
  offset \<open>j\<close> with \<open>i = pageNumber * 3 + j\<close>; and if no index at or beyond that count
  is populated, in particular if no page of the device and epoch reaches beyond the
  count, then exactly the indices from 0 to the count minus one are populated.
\<close>

theorem emitted_digest_population:
  "\<forall>c \<in> set (digestCalls (calls (feedPages (newDigester proximityHandler True) pages))).
     (\<exists>p \<in> set pages.
        pageKey (fst p) = (instanceId (snd c), digestTimestamp (snd c))
        \<and> pgIsLastPage (fst p)
        \<and> expectedOfPage (fst p) = card {i. populated (interactions (snd c)) i})
     \<and> (\<forall>i. populated (interactions (snd c)) i \<longrightarrow>
           (\<exists>p \<in> set pages. \<exists>j < length (pgEntries (fst p)).
              pageKey (fst p) = (instanceId (snd c), digestTimestamp (snd c))
              \<and> i = pgPageNumber (fst p) * 3 + j
              \<and> entryAt (interactions (snd c)) i = Some (pgEntries (fst p) ! j)))
     \<and> ((\<forall>i. populated (interactions (snd c)) i
               \<longrightarrow> i < card {i. populated (interactions (snd c)) i})
          \<longrightarrow> (\<forall>i. populated (interactions (snd c)) i
                     = (i < card {i. populated (interactions (snd c)) i})))
     \<and> ((\<forall>p \<in> set pages.
             pageKey (fst p) = (instanceId (snd c), digestTimestamp (snd c))
             \<longrightarrow> expectedOfPage (fst p) \<le> card {i. populated (interactions (snd c)) i})
          \<longrightarrow> (\<forall>i. populated (interactions (snd c)) i
                     = (i < card {i. populated (interactions (snd c)) i})))"
proof
  fix c
  assume c: "c \<in> set (digestCalls (calls (feedPages (newDigester proximityHandler True) pages)))"
  define d where "d = snd c"
  define n where "n = card {i. populated (interactions d) i}"
  have "reassembled (fst ` set pages) (feedPages (newDigester proximityHandler True) pages)"
    by (rule reassembled_feed [OF reassembled_new]) simp
  with c have e: "emittedFrom (fst ` set pages) d"
    unfolding reassembled_def d_def by blast
  from e have last: "\<exists>p \<in> set pages.
        pageKey (fst p) = (instanceId d, digestTimestamp d)
        \<and> pgIsLastPage (fst p) \<and> expectedOfPage (fst p) = n"
    unfolding emittedFrom_def n_def by auto
  from e have place: "\<forall>i. populated (interactions d) i \<longrightarrow>
           (\<exists>p \<in> set pages. \<exists>j < length (pgEntries (fst p)).
              pageKey (fst p) = (instanceId d, digestTimestamp d)
              \<and> i = pgPageNumber (fst p) * 3 + j
              \<and> entryAt (interactions d) i = Some (pgEntries (fst p) ! j))"
    unfolding emittedFrom_def by auto
  have full: "\<forall>i. populated (interactions d) i = (i < n)"
    if "\<forall>i. populated (interactions d) i \<longrightarrow> i < n"
    using full_below [OF n_def [symmetric] that] by blast
  have below: "\<forall>i. populated (interactions d) i \<longrightarrow> i < n"
    if fit: "\<forall>p \<in> set pages. pageKey (fst p) = (instanceId d, digestTimestamp d)
               \<longrightarrow> expectedOfPage (fst p) \<le> n"
  proof (intro allI impI)
    fix i
    assume "populated (interactions d) i"
    with place obtain p j where
      "p \<in> set pages" "j < length (pgEntries (fst p))"
      "pageKey (fst p) = (instanceId d, digestTimestamp d)" "i = pgPageNumber (fst p) * 3 + j"
      by blast
    with fit show "i < n" by (fastforce simp: expectedOfPage_def)
  qed
  from last place full below show
    "(\<exists>p \<in> set pages.
        pageKey (fst p) = (instanceId (snd c), digestTimestamp (snd c))
        \<and> pgIsLastPage (fst p)
        \<and> expectedOfPage (fst p) = card {i. populated (interactions (snd c)) i})
     \<and> (\<forall>i. populated (interactions (snd c)) i \<longrightarrow>
           (\<exists>p \<in> set pages. \<exists>j < length (pgEntries (fst p)).
              pageKey (fst p) = (instanceId (snd c), digestTimestamp (snd c))
              \<and> i = pgPageNumber (fst p) * 3 + j
              \<and> entryAt (interactions (snd c)) i = Some (pgEntries (fst p) ! j)))
     \<and> ((\<forall>i. populated (interactions (snd c)) i
               \<longrightarrow> i < card {i. populated (interactions (snd c)) i})
          \<longrightarrow> (\<forall>i. populated (interactions (snd c)) i
                     = (i < card {i. populated (interactions (snd c)) i})))
     \<and> ((\<forall>p \<in> set pages.
             pageKey (fst p) = (instanceId (snd c), digestTimestamp (snd c))
             \<longrightarrow> expectedOfPage (fst p) \<le> card {i. populated (interactions (snd c)) i})
          \<longrightarrow> (\<forall>i. populated (interactions (snd c)) i
                     = (i < card {i. populated (interactions (snd c)) i})))"
    unfolding d_def [symmetric] n_def [symmetric] by blast
qed

theorem emitted_digest_population_witness:
  "digestCalls (calls (feedPages (newDigester False True) [(lastPageFive, 0), (pageZero, 1)])) =
     [(0, \<lparr>instanceId = ''01234567'', digestTimestamp = 1, numberOfInteractions = Deleted,
           interactions = [Some (Entry ''0aaaaaaa'' (Some 1)), Some (Entry ''0bbbbbbb'' (Some 2)),
                           Some (Entry ''0ccccccc'' (Some 3)), Some (Entry ''0ddddddd'' (Some 4)),
                           Some (Entry ''0eeeeeee'' (Some 5))],
           timestamp = Some 0, isHandled = False\<rparr>)]
   \<and> (\<forall>i. populated [Some (Entry ''0aaaaaaa'' (Some 1)), Some (Entry ''0bbbbbbb'' (Some 2)),
                      Some (Entry ''0ccccccc'' (Some 3)), Some (Entry ''0ddddddd'' (Some 4)),
                      Some (Entry ''0eeeeeee'' (Some 5))] i = (i < 5))"
proof -
  define arr where
    "arr = [Some (Entry ''0aaaaaaa'' (Some 1)), Some (Entry ''0bbbbbbb'' (Some 2)),
            Some (Entry ''0ccccccc'' (Some 3)), Some (Entry ''0ddddddd'' (Some 4)),
            Some (Entry ''0eeeeeee'' (Some 5))]"
  define d where
    "d = \<lparr>instanceId = ''01234567'', digestTimestamp = 1, numberOfInteractions = Deleted,
          interactions = arr, timestamp = Some 0, isHandled = False\<rparr>"
  have run: "digestCalls (calls (feedPages (newDigester False True)
               [(lastPageFive, 0), (pageZero, 1)])) = [(0, d)]"
    unfolding d_def arr_def
    by (simp add: lastPageFive_def pageZero_def reassembler_defs eval_nat_numeral)
  have n: "card {i. populated (interactions d) i} = 5"
    unfolding countEntries_card [symmetric] by (simp add: d_def arr_def)
  have fit: "\<forall>p \<in> set [(lastPageFive, 0::int), (pageZero, 1)].
               pageKey (fst p) = (instanceId (snd (0::nat, d)), digestTimestamp (snd (0::nat, d)))
               \<longrightarrow> expectedOfPage (fst p)
                     \<le> card {i. populated (interactions (snd (0::nat, d))) i}"
    by (simp add: n) (simp add: lastPageFive_def pageZero_def expectedOfPage_def)
  have mem: "(0::nat, d) \<in> set (digestCalls (calls (feedPages (newDigester False True)
               [(lastPageFive, 0), (pageZero, 1)])))"
    unfolding run by simp
  note t = emitted_digest_population [of False "[(lastPageFive, 0), (pageZero, 1)]",
             THEN bspec, OF mem]
  have g: "\<forall>i. populated (interactions (snd (0::nat, d))) i
               = (i < card {i. populated (interactions (snd (0::nat, d))) i})"
    by (rule t [THEN conjunct2, THEN conjunct2, THEN conjunct2, THEN mp, OF fit])
  have h: "\<forall>i. populated (interactions d) i = (i < 5)"
    using g unfolding snd_conv n .
  have a: "interactions d = arr" by (simp add: d_def)
  from h have "\<forall>i. populated arr i = (i < 5)"
    unfolding a .
  with run show ?thesis unfolding d_def arr_def by (intro conjI)
qed

section \<open>Pages of one epoch, in any order\<close>

lemma complete_iff_full:
  assumes "\<forall>i. populated (interactions d) i \<longrightarrow> i < n"
    and "numberOfInteractions d = Null \<or> numberOfInteractions d = Number n"
  shows "isDigestComplete d \<longleftrightarrow>
           numberOfInteractions d = Number n \<and> (\<forall>i < n. populated (interactions d) i)"
proof
  assume "isDigestComplete d"
  then obtain m where m: "numberOfInteractions d = Number m"
    "card {i. populated (interactions d) i} = m"
    unfolding isDigestComplete_iff by blast
  with assms(2) have mn: "m = n" by auto
  from full_below [OF m(2) [unfolded mn] assms(1)] m(1) mn
  show "numberOfInteractions d = Number n \<and> (\<forall>i < n. populated (interactions d) i)"
    by simp
next
  assume a: "numberOfInteractions d = Number n \<and> (\<forall>i < n. populated (interactions d) i)"
  with assms(1) have "{i. populated (interactions d) i} = {..<n}" by auto
  then have "card {i. populated (interactions d) i} = n" by simp
  with a show "isDigestComplete d" unfolding isDigestComplete_iff by blast
qed

lemma feed_absorbed:
  assumes "wellFormed inst" and "accumulator inst iid = Some d"
    and "digestTimestamp d = dts" and "isHandled d"
    and "\<forall>p \<in> set pages. pageKey (fst p) = (iid, dts)"
  shows "feedPages inst pages = inst"
  using assms(5)
proof (induction pages)
  case Nil
  then show ?case by simp
next
  case (Cons pt pages)
  obtain p ts where pt: "pt = (p, ts)" by (cases pt)
  from Cons.prems have k: "pgInstanceId p = iid" "pgDigestTimestamp p = dts"
    and rest: "\<forall>p \<in> set pages. pageKey (fst p) = (iid, dts)"
    by (simp_all add: pt pageKey_def)
  have b: "baseDigest inst iid dts ts = d"
    using assms(2,3) by (simp add: baseDigest_def)
  have "updateDigest inst iid dts (pgIsLastPage p) (pgPageNumber p) (pgEntries p) ts = inst"
    by (rule updateDigest_absorbed [OF assms(1)]) (simp add: b assms(4))
  then show ?case
    unfolding pt feedPages.simps k using Cons.IH [OF rest] by simp
qed

lemma feed_one_epoch:
  assumes wf: "wellFormed inst"
    and pg: "\<forall>p \<in> set pages. pageKey (fst p) = (iid, dts) \<and> expectedOfPage (fst p) \<le> n
               \<and> (pgIsLastPage (fst p) \<longrightarrow> expectedOfPage (fst p) = n)"
    and base: "\<And>ts. interactions (baseDigest inst iid dts ts) = I
               \<and> numberOfInteractions (baseDigest inst iid dts ts) = N
               \<and> \<not> isHandled (baseDigest inst iid dts ts)"
    and below: "\<forall>i. populated I i \<longrightarrow> i < n"
    and N: "N = Null \<or> N = Number n"
    and inc: "\<not> (N = Number n \<and> (\<forall>i < n. populated I i))"
  shows "emittedKeys (feedPages inst pages) =
           emittedKeys inst @
             (if (N = Number n \<or> (\<exists>p \<in> set pages. pgIsLastPage (fst p)))
                 \<and> (\<forall>i < n. populated I i \<or> (\<exists>p \<in> set pages. covers (fst p) i))
              then [(iid, dts)] else [])"
  using wf pg base below N inc
proof (induction pages arbitrary: inst I N)
  case Nil
  then show ?case by auto
next
  case (Cons pt pages)
  obtain p ts where pt: "pt = (p, ts)" by (cases pt)
  note wf = Cons.prems(1)
  from Cons.prems(2) have k: "pgInstanceId p = iid" "pgDigestTimestamp p = dts"
    and fit: "expectedOfPage p \<le> n"
    and last: "pgIsLastPage p \<Longrightarrow> expectedOfPage p = n"
    and rest: "\<forall>p \<in> set pages. pageKey (fst p) = (iid, dts) \<and> expectedOfPage (fst p) \<le> n
               \<and> (pgIsLastPage (fst p) \<longrightarrow> expectedOfPage (fst p) = n)"
    by (simp_all add: pt pageKey_def)
  define b where "b = baseDigest inst iid dts ts"
  define acc where "acc = addDigestPage b (pgIsLastPage p) (pgPageNumber p) (pgEntries p)"
  define inst' where
    "inst' = updateDigest inst iid dts (pgIsLastPage p) (pgPageNumber p) (pgEntries p) ts"
  from Cons.prems(3) [of ts] have bI: "interactions b = I"
    and bN: "numberOfInteractions b = N" and bH: "\<not> isHandled b"
    unfolding b_def by simp_all
  note e = updateDigest_exact [OF wf bH [unfolded b_def],
      where isLastPage = "pgIsLastPage p" and pageNumber = "pgPageNumber p"
        and page = "pgEntries p",
      folded b_def, folded acc_def, folded inst'_def]
  have key: "instanceId acc = iid" "digestTimestamp acc = dts"
    unfolding acc_def b_def by (simp_all add: addDigestPage_fields baseDigest_key [OF wf])
  have pop: "populated (interactions acc) i = (covers p i \<or> populated I i)" for i
    unfolding acc_def by (simp add: populated_addDigestPage bI covers_def expectedOfPage_def)
  have noi: "numberOfInteractions acc = (if pgIsLastPage p then Number n else N)"
    unfolding acc_def using last
    by (simp add: addDigestPage_fields bN expectedOfPage_def)
  have handled: "\<not> isHandled acc"
    unfolding acc_def using bH by (simp add: addDigestPage_fields)
  have below': "\<forall>i. populated (interactions acc) i \<longrightarrow> i < n"
    using Cons.prems(4) fit by (auto simp: pop covers_def)
  have N': "numberOfInteractions acc = Null \<or> numberOfInteractions acc = Number n"
    using Cons.prems(5) by (simp add: noi)
  note cf = complete_iff_full [OF below' N']
  from e(4) obtain ref where
    dc: "digestCalls (calls inst') = digestCalls (calls inst) @
          (if isDigestComplete acc then [(ref, acc\<lparr>numberOfInteractions := Deleted\<rparr>)] else [])"
    by blast
  have ek: "emittedKeys inst' =
              emittedKeys inst @ (if isDigestComplete acc then [(iid, dts)] else [])"
    unfolding emittedKeys_def dc by (simp add: key)
  have f: "feedPages inst (pt # pages) = feedPages inst' pages"
    by (simp add: pt inst'_def k)
  show ?case
  proof (cases "isDigestComplete acc")
    case True
    with e(3) have a: "accumulator inst' iid
                         = Some (acc\<lparr>numberOfInteractions := Deleted, isHandled := True\<rparr>)"
      by simp
    have hk: "digestTimestamp (acc\<lparr>numberOfInteractions := Deleted, isHandled := True\<rparr>) = dts"
      by (simp add: key)
    have hh: "isHandled (acc\<lparr>numberOfInteractions := Deleted, isHandled := True\<rparr>)"
      by simp
    from rest have rk: "\<forall>p \<in> set pages. pageKey (fst p) = (iid, dts)" by blast
    have "feedPages inst' pages = inst'"
      by (rule feed_absorbed [OF e(1) a hk hh rk])
    moreover from True cf have "numberOfInteractions acc = Number n"
      and "\<forall>i < n. populated (interactions acc) i"
      by simp_all
    then have "(N = Number n \<or> (\<exists>q \<in> set (pt # pages). pgIsLastPage (fst q)))
                 \<and> (\<forall>i < n. populated I i \<or> (\<exists>q \<in> set (pt # pages). covers (fst q) i))"
      by (auto simp: noi pop pt split: if_splits)
    ultimately show ?thesis
      unfolding f using True by (simp add: ek)
  next
    case False
    with e(3) have a: "accumulator inst' iid = Some acc" by simp
    have base': "interactions (baseDigest inst' iid dts ts') = interactions acc
               \<and> numberOfInteractions (baseDigest inst' iid dts ts') = numberOfInteractions acc
               \<and> \<not> isHandled (baseDigest inst' iid dts ts')" for ts'
      using handled by (simp add: baseDigest_def a key)
    from False cf have inc': "\<not> (numberOfInteractions acc = Number n
                                \<and> (\<forall>i < n. populated (interactions acc) i))"
      by simp
    note ih = Cons.IH [OF e(1) rest base' below' N' inc']
    have c1: "(numberOfInteractions acc = Number n \<or> (\<exists>q \<in> set pages. pgIsLastPage (fst q)))
              = (N = Number n \<or> (\<exists>q \<in> set (pt # pages). pgIsLastPage (fst q)))"
      using Cons.prems(5) by (auto simp: noi pt)
    have c2: "(\<forall>i < n. populated (interactions acc) i \<or> (\<exists>q \<in> set pages. covers (fst q) i))
              = (\<forall>i < n. populated I i \<or> (\<exists>q \<in> set (pt # pages). covers (fst q) i))"
      by (auto simp: pop pt)
    show ?thesis
      unfolding f ih c1 c2 using False by (simp add: ek)
  qed
qed

lemma feed_new_digester:
  assumes "\<forall>p \<in> set pages. pageKey (fst p) = (iid, dts) \<and> expectedOfPage (fst p) \<le> n
               \<and> (pgIsLastPage (fst p) \<longrightarrow> expectedOfPage (fst p) = n)"
  shows "emittedKeys (feedPages (newDigester proximityHandler True) pages) =
           (if (\<exists>p \<in> set pages. pgIsLastPage (fst p))
               \<and> (\<forall>i < n. \<exists>p \<in> set pages. covers (fst p) i)
            then [(iid, dts)] else [])"
proof -
  have base: "interactions (baseDigest (newDigester proximityHandler True) iid dts ts) = []
               \<and> numberOfInteractions (baseDigest (newDigester proximityHandler True) iid dts ts)
                   = Null
               \<and> \<not> isHandled (baseDigest (newDigester proximityHandler True) iid dts ts)" for ts
    by (simp add: baseDigest_def accumulator_def newDigester_def blankDigest_def)
  have "emittedKeys (feedPages (newDigester proximityHandler True) pages) =
           emittedKeys (newDigester proximityHandler True) @
             (if (Null = Number n \<or> (\<exists>p \<in> set pages. pgIsLastPage (fst p)))
                 \<and> (\<forall>i < n. populated ([] :: entry option list) i \<or> (\<exists>p \<in> set pages. covers (fst p) i))
              then [(iid, dts)] else [])"
  proof (rule feed_one_epoch [OF wellFormed_new assms])
    show "interactions (baseDigest (newDigester proximityHandler True) iid dts ts) = []
               \<and> numberOfInteractions (baseDigest (newDigester proximityHandler True) iid dts ts)
                   = Null
               \<and> \<not> isHandled (baseDigest (newDigester proximityHandler True) iid dts ts)" for ts
      by (rule base)
    show "\<forall>i. populated ([] :: entry option list) i \<longrightarrow> i < n" by (simp add: populated_def)
    show "Null = Null \<or> Null = Number n" by simp
    show "\<not> (Null = Number n \<and> (\<forall>i < n. populated ([] :: entry option list) i))" by simp
  qed
  then show ?thesis
    by (simp add: new_digester_facts populated_def)
qed

section \<open>The completeness judgement\<close>

lemma bex_fst_cong:
  assumes "fst ` A = fst ` B"
  shows "(\<exists>p \<in> A. P (fst p)) = (\<exists>p \<in> B. P (fst p))"
proof -
  have "(\<exists>p \<in> A. P (fst p)) = (\<exists>x \<in> fst ` A. P x)" by auto
  also have "\<dots> = (\<exists>x \<in> fst ` B. P x)" by (simp only: assms)
  also have "\<dots> = (\<exists>p \<in> B. P (fst p))" by auto
  finally show ?thesis .
qed

text \<open>
  Claim C3 says that the judgement does not depend on the order in which the pages
  arrived. \<open>updateDigest\<close> judges after every page, and a handled digest takes no
  further page, so it does. A page 0 flagged last with one entry is complete by
  itself and is delivered when it comes first; after a page 1 with three entries it
  meets four entries against an expected count of one, and the digest is never
  delivered. Two pages flagged last that announce different counts give a second
  case: the later one decides the expected count.
\<close>

theorem judgement_depends_on_order_counterexample:
  "emittedKeys (feedPages (newDigester False True) [(lastPageOne, 0), (openPageOne, 1)])
     = [(''01234567'', 1)]
   \<and> emittedKeys (feedPages (newDigester False True) [(openPageOne, 0), (lastPageOne, 1)]) = []
   \<and> emittedKeys (feedPages (newDigester False True)
        [(lastPageFour, 0), (lastPageFive, 1), (pageZero, 2)]) = [(''01234567'', 1)]
   \<and> emittedKeys (feedPages (newDigester False True)
        [(lastPageFive, 0), (lastPageFour, 1), (pageZero, 2)]) = []"
proof -
  have a: "emittedKeys (feedPages (newDigester False True) [(lastPageOne, 0), (openPageOne, 1)])
     = [(''01234567'', 1)]"
    by (simp add: lastPageOne_def openPageOne_def emittedKeys_def reassembler_defs
        eval_nat_numeral)
  have b: "emittedKeys (feedPages (newDigester False True) [(openPageOne, 0), (lastPageOne, 1)])
     = []"
    by (simp add: lastPageOne_def openPageOne_def emittedKeys_def reassembler_defs
        eval_nat_numeral)
  have c: "emittedKeys (feedPages (newDigester False True)
        [(lastPageFour, 0), (lastPageFive, 1), (pageZero, 2)]) = [(''01234567'', 1)]"
    by (simp add: lastPageFour_def lastPageFive_def pageZero_def emittedKeys_def
        reassembler_defs eval_nat_numeral)
  have d: "emittedKeys (feedPages (newDigester False True)
        [(lastPageFive, 0), (lastPageFour, 1), (pageZero, 2)]) = []"
    by (simp add: lastPageFour_def lastPageFive_def pageZero_def emittedKeys_def
        reassembler_defs eval_nat_numeral)
  from a b c d show ?thesis by (intro conjI)
qed

text \<open>
  Claim C3, amended. A digest is judged complete exactly when its expected count is a
  number and the number of populated indices of \<open>interactions\<close> equals it. The
  expected count is set only by a page flagged last, to
  \<open>pageNumber * 3 + page.length\<close>. For the pages of one device and one epoch fed to a
  new digester, whether \<open>updateDigest\<close> judges the digest complete and calls the
  handler does not depend on the order of arrival, nor on repetitions or capture
  times, provided every page flagged last announces the same count \<open>n\<close> and no page
  reaches an index at or beyond \<open>n\<close>: the handler is called, once, exactly when a
  last page is among them and every index below \<open>n\<close> is covered by a page.
\<close>

theorem completeness_judgement:
  "(isDigestComplete d \<longleftrightarrow>
      (\<exists>m. numberOfInteractions d = Number m \<and> card {i. populated (interactions d) i} = m))
   \<and> numberOfInteractions (addDigestPage d isLastPage pageNumber page) =
       (if isLastPage then Number (pageNumber * 3 + length page) else numberOfInteractions d)
   \<and> numberOfInteractions (createDigest iid dts isLastPage pageNumber page ts) =
       (if isLastPage then Number (pageNumber * 3 + length page) else Null)
   \<and> ((\<forall>p \<in> set ps. pageKey (fst p) = (iid, dts) \<and> expectedOfPage (fst p) \<le> n
            \<and> (pgIsLastPage (fst p) \<longrightarrow> expectedOfPage (fst p) = n))
       \<and> fst ` set qs = fst ` set ps
      \<longrightarrow> emittedKeys (feedPages (newDigester proximityHandler True) ps) =
            (if (\<exists>p \<in> set ps. pgIsLastPage (fst p))
                \<and> (\<forall>i < n. \<exists>p \<in> set ps. covers (fst p) i)
             then [(iid, dts)] else [])
          \<and> emittedKeys (feedPages (newDigester proximityHandler True) qs) =
              emittedKeys (feedPages (newDigester proximityHandler True) ps))"
proof (intro conjI impI)
  show "isDigestComplete d \<longleftrightarrow>
      (\<exists>m. numberOfInteractions d = Number m \<and> card {i. populated (interactions d) i} = m)"
    by (rule isDigestComplete_iff)
next
  show "numberOfInteractions (addDigestPage d isLastPage pageNumber page) =
       (if isLastPage then Number (pageNumber * 3 + length page) else numberOfInteractions d)"
    by (rule addDigestPage_fields)
next
  show "numberOfInteractions (createDigest iid dts isLastPage pageNumber page ts) =
       (if isLastPage then Number (pageNumber * 3 + length page) else Null)"
    by (simp add: createDigest_blank addDigestPage_fields blankDigest_def)
next
  assume a: "(\<forall>p \<in> set ps. pageKey (fst p) = (iid, dts) \<and> expectedOfPage (fst p) \<le> n
            \<and> (pgIsLastPage (fst p) \<longrightarrow> expectedOfPage (fst p) = n))
       \<and> fst ` set qs = fst ` set ps"
  then have p: "\<forall>p \<in> set ps. pageKey (fst p) = (iid, dts) \<and> expectedOfPage (fst p) \<le> n
            \<and> (pgIsLastPage (fst p) \<longrightarrow> expectedOfPage (fst p) = n)"
    by blast
  show "emittedKeys (feedPages (newDigester proximityHandler True) ps) =
            (if (\<exists>p \<in> set ps. pgIsLastPage (fst p))
                \<and> (\<forall>i < n. \<exists>p \<in> set ps. covers (fst p) i)
             then [(iid, dts)] else [])"
    by (rule feed_new_digester [OF p])
next
  assume a: "(\<forall>p \<in> set ps. pageKey (fst p) = (iid, dts) \<and> expectedOfPage (fst p) \<le> n
            \<and> (pgIsLastPage (fst p) \<longrightarrow> expectedOfPage (fst p) = n))
       \<and> fst ` set qs = fst ` set ps"
  then have p: "\<forall>p \<in> set ps. pageKey (fst p) = (iid, dts) \<and> expectedOfPage (fst p) \<le> n
            \<and> (pgIsLastPage (fst p) \<longrightarrow> expectedOfPage (fst p) = n)"
    and s: "fst ` set qs = fst ` set ps"
    by blast+
  have q: "\<forall>p \<in> set qs. pageKey (fst p) = (iid, dts) \<and> expectedOfPage (fst p) \<le> n
            \<and> (pgIsLastPage (fst p) \<longrightarrow> expectedOfPage (fst p) = n)"
  proof
    fix x
    assume "x \<in> set qs"
    then have "fst x \<in> fst ` set ps" unfolding s [symmetric] by simp
    then obtain y where "y \<in> set ps" "fst y = fst x" by auto
    with p show "pageKey (fst x) = (iid, dts) \<and> expectedOfPage (fst x) \<le> n
            \<and> (pgIsLastPage (fst x) \<longrightarrow> expectedOfPage (fst x) = n)"
      by metis
  qed
  have l: "(\<exists>p \<in> set qs. pgIsLastPage (fst p)) = (\<exists>p \<in> set ps. pgIsLastPage (fst p))"
    by (rule bex_fst_cong [OF s])
  have c: "(\<exists>p \<in> set qs. covers (fst p) i) = (\<exists>p \<in> set ps. covers (fst p) i)" for i
    by (rule bex_fst_cong [OF s])
  show "emittedKeys (feedPages (newDigester proximityHandler True) qs) =
          emittedKeys (feedPages (newDigester proximityHandler True) ps)"
    unfolding feed_new_digester [OF p] feed_new_digester [OF q] l c ..
qed

theorem completeness_judgement_witness:
  "emittedKeys (feedPages (newDigester False True) [(lastPageFive, 5), (pageZero, 6)])
     = emittedKeys (feedPages (newDigester False True) [(pageZero, 0), (lastPageFive, 1)])
   \<and> emittedKeys (feedPages (newDigester False True) [(pageZero, 0), (lastPageFive, 1)])
     = [(''01234567'', 1)]"
proof -
  have h: "\<forall>p \<in> set [(pageZero, 0::int), (lastPageFive, 1)].
             pageKey (fst p) = (''01234567'', 1) \<and> expectedOfPage (fst p) \<le> 5
             \<and> (pgIsLastPage (fst p) \<longrightarrow> expectedOfPage (fst p) = 5)"
    by (simp add: pageZero_def lastPageFive_def pageKey_def expectedOfPage_def)
  have s: "fst ` set [(lastPageFive, 5::int), (pageZero, 6)]
             = fst ` set [(pageZero, 0::int), (lastPageFive, 1)]"
    by auto
  note t = completeness_judgement
             [where ps = "[(pageZero, 0), (lastPageFive, 1)]"
                and qs = "[(lastPageFive, 5), (pageZero, 6)]"
                and iid = "''01234567''" and dts = 1 and n = 5 and proximityHandler = False,
              THEN conjunct2, THEN conjunct2, THEN conjunct2, THEN mp, OF conjI [OF h s]]
  have e: "emittedKeys (feedPages (newDigester False True) [(pageZero, 0), (lastPageFive, 1)])
     = [(''01234567'', 1)]"
    by (simp add: pageZero_def lastPageFive_def emittedKeys_def reassembler_defs
        eval_nat_numeral)
  from t [THEN conjunct2] e show ?thesis by (intro conjI)
qed

end
